theory Spec2Isabelle
  imports Main "HOL-Library.List_Lexorder"
begin

section \<open>Data model\<close>

text \<open>
  The section objects built by \<^verbatim>\<open>jsonSections\<close> and \<^verbatim>\<open>processFile\<close> of
  \<^verbatim>\<open>lib/modules/kss-parser.js\<close>. A field the JavaScript object may lack is an option.
  Strings are lists of 8-bit characters: the model covers text whose UTF-16 code units
  are below 256. Weights are integers.
\<close>

record modifier =
  mod_id :: nat
  mod_name :: string
  mod_description :: string
  mod_className :: string
  mod_markup :: "string option"

record kss_section =
  header :: string
  sec_description :: string
  modifiers :: "modifier list"
  deprecated :: bool
  experimental :: bool
  reference :: string
  markup :: "string option"
  weight :: int
  css :: "string option"
  sec_syntax :: "string option"
  sec_file :: "string option"
  stringReference :: "string option"

datatype error =
  PluginError string string
  | ParserError string
  | SplitterError string

section \<open>Strings as JavaScript handles them\<close>

text \<open>The character classes \<^verbatim>\<open>\s\<close> and \<^verbatim>\<open>\d\<close> of a JavaScript regular expression,
  on code units below 256.\<close>

definition is_space :: "char \<Rightarrow> bool" where
  "is_space c = ((of_char c :: nat) \<in> {9, 10, 11, 12, 13, 32, 160})"

definition is_digit :: "char \<Rightarrow> bool" where
  "is_digit c = (48 \<le> (of_char c :: nat) \<and> (of_char c :: nat) \<le> 57)"

text \<open>\<^verbatim>\<open>String.prototype.toLowerCase\<close>: A to Z and the upper-case letters of Latin-1.\<close>

definition toLowerCase_char :: "char \<Rightarrow> char" where
  "toLowerCase_char c =
     (let n = (of_char c :: nat)
      in if (65 \<le> n \<and> n \<le> 90) \<or> (192 \<le> n \<and> n \<le> 222 \<and> n \<noteq> 215)
         then char_of (n + 32) else c)"

definition toLowerCase :: "string \<Rightarrow> string" where
  "toLowerCase s = map toLowerCase_char s"

text \<open>\<^verbatim>\<open>s.split('.')\<close>: the pieces between the dots, at least one piece.
  \<open>extend_first\<close> puts a character in front of the piece being read.\<close>

definition extend_first :: "char \<Rightarrow> string list \<Rightarrow> string list" where
  "extend_first c pieces =
     (case pieces of [] \<Rightarrow> [[c]] | piece # rest \<Rightarrow> (c # piece) # rest)"

fun split_dot :: "string \<Rightarrow> string list" where
  "split_dot [] = [[]]"
| "split_dot (c # cs) =
     (if c = CHR ''.'' then [] # split_dot cs else extend_first c (split_dot cs))"

text \<open>\<^verbatim>\<open>xs.join('.')\<close>.\<close>

fun join_dot :: "string list \<Rightarrow> string" where
  "join_dot [] = []"
| "join_dot [x] = x"
| "join_dot (x # y # ys) = x @ CHR ''.'' # join_dot (y # ys)"

text \<open>\<^verbatim>\<open>s.split(/(?:\.|\s\-\s)/)\<close>: a separator is one dot, or a dash with exactly one
  white-space character on each side. The scan goes left to right and the dot is tried
  first.\<close>

definition dash_follows :: "string \<Rightarrow> bool" where
  "dash_follows cs =
     (case cs of d # e # rest \<Rightarrow> d = CHR ''-'' \<and> is_space e | _ \<Rightarrow> False)"

fun split_chunks :: "string \<Rightarrow> string list" where
  "split_chunks [] = [[]]"
| "split_chunks (c # cs) =
     (if c = CHR ''.'' then [] # split_chunks cs
      else if is_space c \<and> dash_follows cs then [] # split_chunks (drop 2 cs)
      else extend_first c (split_chunks cs))"

text \<open>\<^verbatim>\<open>s.replace(/\s+\-\s+/g, '.')\<close>: a run of white space, a dash and a run of white
  space become one dot. The runs are greedy, so a match starts where a white-space run
  that is followed by a dash and white space starts, and it takes all the white space
  after the dash.\<close>

function replace_dashes :: "string \<Rightarrow> string" where
  "replace_dashes [] = []"
| "replace_dashes (c # cs) =
     (if is_space c then
        (case dropWhile is_space cs of
           d # e # rest \<Rightarrow>
             if d = CHR ''-'' \<and> is_space e then CHR ''.'' # replace_dashes (dropWhile is_space rest)
             else c # replace_dashes cs
         | _ \<Rightarrow> c # replace_dashes cs)
      else c # replace_dashes cs)"
  by pat_completeness auto
termination
proof (relation "measure length")
  show "wf (measure length)" by simp
next
  fix c :: char and cs x21 x22 x31 x32
  assume "dropWhile is_space cs = x21 # x22" "x22 = x31 # x32"
  then have "length cs = length (takeWhile is_space cs) + length (x21 # x31 # x32)"
    by (metis length_append takeWhile_dropWhile_id)
  moreover have "length (dropWhile is_space x32) \<le> length x32"
    by (simp add: length_dropWhile_le)
  ultimately show "(dropWhile is_space x32, c # cs) \<in> measure length"
    by simp
qed simp_all

text \<open>
  The numbers the comparator computes with are doubles. Those it meets are integers,
  the two infinities and NaN. \<open>round_double\<close> is the double nearest to a natural number
  (ties go to the even significand of 53 bits); from \<open>2 ^ 1024\<close> on the result is
  infinite. \<open>js_minus\<close> is the subtraction of doubles: the exact difference, rounded.
\<close>

datatype js_number = Num int | PosInf | NegInf | NaN

fun bit_length :: "nat \<Rightarrow> nat" where
  "bit_length n = (if n = 0 then 0 else Suc (bit_length (n div 2)))"

declare bit_length.simps [simp del]

definition round_double :: "nat \<Rightarrow> nat" where
  "round_double n =
     (if n < 2 ^ 53 then n
      else (let e = bit_length n - 53;
                q = n div 2 ^ e;
                r = n mod 2 ^ e
            in (if 2 ^ e < 2 * r \<or> (2 * r = 2 ^ e \<and> odd q) then q + 1 else q) * 2 ^ e))"

definition to_double :: "int \<Rightarrow> js_number" where
  "to_double d =
     (let r = round_double (nat \<bar>d\<bar>)
      in if 2 ^ 1024 \<le> r then (if d < 0 then NegInf else PosInf)
         else Num (if d < 0 then - int r else int r))"

fun js_minus :: "js_number \<Rightarrow> js_number \<Rightarrow> js_number" where
  "js_minus (Num x) (Num y) = to_double (x - y)"
| "js_minus NaN y = NaN"
| "js_minus x NaN = NaN"
| "js_minus PosInf PosInf = NaN"
| "js_minus NegInf NegInf = NaN"
| "js_minus PosInf y = PosInf"
| "js_minus NegInf y = NegInf"
| "js_minus (Num x) PosInf = NegInf"
| "js_minus (Num x) NegInf = PosInf"

text \<open>\<^verbatim>\<open>order > 0\<close> and \<^verbatim>\<open>order < 0\<close>.\<close>

fun js_positive :: "js_number \<Rightarrow> bool" where
  "js_positive (Num n) = (0 < n)"
| "js_positive PosInf = True"
| "js_positive r = False"

fun js_negative :: "js_number \<Rightarrow> bool" where
  "js_negative (Num n) = (n < 0)"
| "js_negative NegInf = True"
| "js_negative r = False"

text \<open>A number as \<^verbatim>\<open>join\<close> prints it, the natural number a string of digits denotes,
  and the double the source takes the string for.\<close>

definition digit_char :: "nat \<Rightarrow> char" where
  "digit_char d = char_of (48 + d)"

fun decimal :: "nat \<Rightarrow> string" where
  "decimal n = (if n < 10 then [digit_char n] else decimal (n div 10) @ [digit_char (n mod 10)])"

declare decimal.simps [simp del]

definition digit_value :: "char \<Rightarrow> nat" where
  "digit_value c = of_char c - 48"

definition digits_value :: "string \<Rightarrow> nat" where
  "digits_value s = foldl (\<lambda>acc c. 10 * acc + digit_value c) 0 s"

definition to_number :: "string \<Rightarrow> js_number" where
  "to_number s = to_double (int (digits_value s))"

text \<open>\<^verbatim>\<open>x > y\<close> on strings: the first differing code unit decides; a proper prefix is
  smaller.\<close>

fun string_gt :: "string \<Rightarrow> string \<Rightarrow> bool" where
  "string_gt [] ys = False"
| "string_gt (x # xs) [] = True"
| "string_gt (x # xs) (y # ys) =
     (if x = y then string_gt xs ys else (of_char y :: nat) < of_char x)"

text \<open>\<^verbatim>\<open>/^\d+$/\<close> and \<^verbatim>\<open>/^[\d\.\-]+$/\<close>: the whole string, at least one character.\<close>

definition all_digits :: "string \<Rightarrow> bool" where
  "all_digits s = (s \<noteq> [] \<and> list_all is_digit s)"

definition numeric_reference :: "string \<Rightarrow> bool" where
  "numeric_reference s =
     (s \<noteq> [] \<and> list_all (\<lambda>c. is_digit c \<or> c = CHR ''.'' \<or> c = CHR ''-'') s)"

text \<open>\<^verbatim>\<open>quote\<close>.\<close>

definition quote :: "string \<Rightarrow> string" where
  "quote s = CHR 0x22 # s @ [CHR 0x22]"

section \<open>KssNodeSorter\<close>

subsection \<open>The weight map\<close>

text \<open>
  \<^verbatim>\<open>_.object(pairs)\<close> of lodash sets the keys of a plain object in the order of the
  pairs, so a later pair with the same key wins. The map holds the object's own keys.
  Assigning a number to \<^verbatim>\<open>__proto__\<close> sets no key. The value stored is
  \<^verbatim>\<open>section.weight || 0\<close>, which is the weight itself for an integer weight.
  \<^verbatim>\<open>_.clone(sections, true)\<close> copies the values, so on values it is the identity; the
  store model below gives the copy its own addresses.
\<close>

definition object_of_pairs :: "(string \<times> int) list \<Rightarrow> (string \<rightharpoonup> int)" where
  "object_of_pairs pairs =
     foldl (\<lambda>m (k, v). if k = ''__proto__'' then m else m(k \<mapsto> v)) Map.empty pairs"

definition initWeightMap :: "kss_section list \<Rightarrow> (string \<rightharpoonup> int)" where
  "initWeightMap secs =
     object_of_pairs
       (map (\<lambda>s. (replace_dashes (toLowerCase (reference s)), weight s)) secs)"

record KssNodeSorter =
  sections :: "kss_section list"
  weightMap :: "string \<rightharpoonup> int"

definition new_KssNodeSorter :: "kss_section list \<Rightarrow> KssNodeSorter" where
  "new_KssNodeSorter secs = \<lparr>sections = secs, weightMap = initWeightMap secs\<rparr>"

subsection \<open>The comparator\<close>

text \<open>
  What \<^verbatim>\<open>weightMap[key] || 0\<close> gives: the weight under an own key; for a key the
  object does not own, what it inherits from \<^verbatim>\<open>Object.prototype\<close>, where the only names
  in lower case are \<^verbatim>\<open>constructor\<close> (the function \<^verbatim>\<open>Object\<close>) and \<^verbatim>\<open>__proto__\<close> (the
  prototype itself); and 0 for any other key, as for a weight of 0. The two objects are
  different from each other and from every number, and as numbers they are NaN.
\<close>

datatype weight_value = Weight int | ObjectFunction | ObjectPrototype

definition weight_number :: "weight_value \<Rightarrow> js_number" where
  "weight_number w = (case w of Weight n \<Rightarrow> Num n | ObjectFunction \<Rightarrow> NaN | ObjectPrototype \<Rightarrow> NaN)"

text \<open>\<^verbatim>\<open>getWeight(reference, index)\<close>; the index is optional in the source.\<close>

definition getWeight :: "(string \<rightharpoonup> int) \<Rightarrow> string \<Rightarrow> nat option \<Rightarrow> weight_value" where
  "getWeight wm ref index =
     (let r = replace_dashes (toLowerCase ref);
          key = (case index of
                   Some i \<Rightarrow> join_dot (take (i + 1) (split_dot r))
                 | None \<Rightarrow> r)
      in case wm key of
           Some w \<Rightarrow> Weight w
         | None \<Rightarrow>
             if key = ''constructor'' then ObjectFunction
             else if key = ''__proto__'' then ObjectPrototype
             else Weight 0)"

text \<open>\<^verbatim>\<open>refs[i]\<close> is \<^verbatim>\<open>undefined\<close> past the end of the array; \<^verbatim>\<open>undefined\<close> and the
  empty string are the falsy chunks.\<close>

definition chunk_at :: "string list \<Rightarrow> nat \<Rightarrow> string option" where
  "chunk_at refs i = (if i < length refs then Some (refs ! i) else None)"

definition truthy :: "string option \<Rightarrow> bool" where
  "truthy c = (case c of Some s \<Rightarrow> s \<noteq> [] | None \<Rightarrow> False)"

text \<open>The loop of \<^verbatim>\<open>likeKssNode\<close> from index \<open>i\<close> on.\<close>

function likeKssNode_from ::
  "(string \<rightharpoonup> int) \<Rightarrow> kss_section \<Rightarrow> kss_section \<Rightarrow> string list \<Rightarrow> string list \<Rightarrow> nat \<Rightarrow> nat \<Rightarrow>
   js_number"
where
  "likeKssNode_from wm a b refsA refsB i l =
     (if i < l then
        (if truthy (chunk_at refsA i) \<and> truthy (chunk_at refsB i) then
           (if refsA ! i \<noteq> refsB ! i then
              (let weightA = getWeight wm (reference a) (Some i);
                   weightB = getWeight wm (reference b) (Some i)
               in if weightA \<noteq> weightB
                    then js_minus (weight_number weightA) (weight_number weightB)
                  else if all_digits (refsA ! i) \<and> all_digits (refsB ! i)
                    then js_minus (to_number (refsA ! i)) (to_number (refsB ! i))
                  else if string_gt (refsA ! i) (refsB ! i) then Num 1 else Num (- 1))
            else likeKssNode_from wm a b refsA refsB (i + 1) l)
         else (if truthy (chunk_at refsA i) then Num 1 else Num (- 1)))
      else Num 0)"
  by pat_completeness auto
termination
  by (relation "measure (\<lambda>(wm, a, b, refsA, refsB, i, l). l - i)") auto

declare likeKssNode_from.simps [simp del]

definition likeKssNode :: "(string \<rightharpoonup> int) \<Rightarrow> kss_section \<Rightarrow> kss_section \<Rightarrow> js_number" where
  "likeKssNode wm a b =
     (let refsA = split_chunks (toLowerCase (reference a));
          refsB = split_chunks (toLowerCase (reference b))
      in likeKssNode_from wm a b refsA refsB 0 (max (length refsA) (length refsB)))"

subsection \<open>Sorting\<close>

text \<open>
  \<^verbatim>\<open>Array.prototype.sort\<close> belongs to the host. It is modelled as the insertion sort that
  moves each element, from the second on, to the left past the elements that compare
  greater than it (\<^verbatim>\<open>order > 0\<close>, which NaN is not): a stable sort, and the order every
  stable sort gives when the comparator is consistent. \<open>insert_back\<close> works on the
  sorted prefix in reverse.
\<close>

fun insert_back :: "('a \<Rightarrow> 'a \<Rightarrow> js_number) \<Rightarrow> 'a \<Rightarrow> 'a list \<Rightarrow> 'a list" where
  "insert_back cmp element [] = [element]"
| "insert_back cmp element (tmp # left) =
     (if js_positive (cmp tmp element) then tmp # insert_back cmp element left
      else element # tmp # left)"

definition array_sort :: "('a \<Rightarrow> 'a \<Rightarrow> js_number) \<Rightarrow> 'a list \<Rightarrow> 'a list" where
  "array_sort cmp xs = rev (foldl (\<lambda>left element. insert_back cmp element left) [] xs)"

subsection \<open>Numbering\<close>

text \<open>The variables of \<^verbatim>\<open>convertKssReferenceString2Number\<close> that live across the
  iterations of its loop. \<^verbatim>\<open>previousSection\<close> starts as an object without fields.\<close>

record numbering =
  previousRef :: "string list"
  previousSection :: "kss_section option"
  autoIncrement :: "nat list"

definition initial_numbering :: numbering where
  "initial_numbering = \<lparr>previousRef = [], previousSection = None, autoIncrement = [0]\<rparr>"

text \<open>The inner loop that finds the index where the previous and the new chunks differ.\<close>

function find_incrementIndex :: "string list \<Rightarrow> string list \<Rightarrow> nat \<Rightarrow> nat \<Rightarrow> nat" where
  "find_incrementIndex prev ref index incrementIndex =
     (if index < length prev then
        (if index \<ge> length ref \<or> prev ! index \<noteq> ref ! index then incrementIndex
         else find_incrementIndex prev ref (index + 1) (index + 1))
      else incrementIndex)"
  by pat_completeness auto
termination
  by (relation "measure (\<lambda>(prev, ref, index, incrementIndex). length prev - index)") auto

declare find_incrementIndex.simps [simp del]

definition collision_message :: "kss_section option \<Rightarrow> kss_section \<Rightarrow> string" where
  "collision_message prev sec =
     ''Two sections defined with same reference '' @
     (case prev of Some p \<Rightarrow> reference p | None \<Rightarrow> ''undefined'') @ '': '' @
     quote (case prev of Some p \<Rightarrow> header p | None \<Rightarrow> ''undefined'') @ '' and '' @
     quote (header sec)"

text \<open>The end of an iteration: a section whose reference is not made of digits, dots
  and dashes only takes the auto-increment as its reference and keeps its text in
  \<open>stringReference\<close>.\<close>

definition renumber :: "nat list \<Rightarrow> kss_section \<Rightarrow> kss_section" where
  "renumber auto sec =
     (if \<not> numeric_reference (reference sec)
      then sec\<lparr>stringReference := Some (reference sec), reference := join_dot (map decimal auto)\<rparr>
      else sec)"

text \<open>One iteration: the new state and the section as the iteration leaves it, or the
  error it throws.\<close>

definition number_section :: "numbering \<Rightarrow> kss_section \<Rightarrow> error + (numbering \<times> kss_section)" where
  "number_section st sec =
     (let ref = split_dot (replace_dashes (reference sec));
          incrementIndex = find_incrementIndex (previousRef st) ref 0 0;
          auto = autoIncrement st
      in if incrementIndex < length auto then
           (let auto1 = take (incrementIndex + 1) (auto[incrementIndex := auto ! incrementIndex + 1]);
                auto2 = auto1 @ replicate (length ref - length auto1) 1;
                sec' = renumber auto2 sec
            in Inr (\<lparr>previousRef = ref, previousSection = Some sec', autoIncrement = auto2\<rparr>, sec'))
         else Inl (PluginError ''kss-parser'' (collision_message (previousSection st) sec)))"

fun number_sections :: "numbering \<Rightarrow> kss_section list \<Rightarrow> error + (numbering \<times> kss_section list)" where
  "number_sections st [] = Inr (st, [])"
| "number_sections st (sec # secs) =
     (case number_section st sec of
        Inl e \<Rightarrow> Inl e
      | Inr (st', sec') \<Rightarrow>
          (case number_sections st' secs of
             Inl e \<Rightarrow> Inl e
           | Inr (st'', secs') \<Rightarrow> Inr (st'', sec' # secs')))"

definition convertKssReferenceString2Number :: "kss_section list \<Rightarrow> error + kss_section list" where
  "convertKssReferenceString2Number secs =
     (case number_sections initial_numbering secs of
        Inl e \<Rightarrow> Inl e
      | Inr (st, secs') \<Rightarrow> Inr secs')"

text \<open>\<^verbatim>\<open>KssNodeSorter.prototype.sort\<close>: the sorter with its sections sorted and numbered,
  or the error thrown.\<close>

definition KssNodeSorter_sort :: "KssNodeSorter \<Rightarrow> error + KssNodeSorter" where
  "KssNodeSorter_sort kns =
     (case convertKssReferenceString2Number
             (array_sort (likeKssNode (weightMap kns)) (sections kns)) of
        Inl e \<Rightarrow> Inl e
      | Inr secs \<Rightarrow> Inr (kns\<lparr>sections := secs\<rparr>))"

text \<open>The \<^verbatim>\<open>try\<close> block of \<^verbatim>\<open>parseKssSections\<close>: a new sorter on the merged sections,
  \<^verbatim>\<open>sort()\<close>, and the sorter's sections; or the error thrown.\<close>

definition sortedSections :: "kss_section list \<Rightarrow> error + kss_section list" where
  "sortedSections secs =
     (case KssNodeSorter_sort (new_KssNodeSorter secs) of
        Inl e \<Rightarrow> Inl e
      | Inr kns \<Rightarrow> Inr (sections kns))"

text \<open>A section with a header, a reference and a weight and nothing else, for the
  examples.\<close>

definition plain_section :: "string \<Rightarrow> string \<Rightarrow> int \<Rightarrow> kss_section" where
  "plain_section h r w =
     \<lparr>header = h, sec_description = [], modifiers = [], deprecated = False,
      experimental = False, reference = r, markup = None, weight = w, css = None,
      sec_syntax = None, sec_file = None, stringReference = None\<rparr>"

section \<open>The pipeline\<close>

text \<open>
  A promise of the Q library is modelled by how it ends: fulfilled with a value, rejected
  with an error, or never settled. The console is a list of the lines written.
\<close>

datatype 'a promise = Fulfilled 'a | Rejected error | Pending

datatype log_entry = ConsoleError string error | ConsoleWarn string

record block =
  blk_kss :: string
  blk_code :: "string option"

text \<open>
  The collaborators outside this file, as parameters:
  \<^item> \<open>getBlocks\<close> is \<^verbatim>\<open>kssSplitter.getBlocks(contents, syntax)\<close>, which may throw;
  \<^item> \<open>parse\<close> is \<^verbatim>\<open>kss.parse\<close> on the sanitized comment, giving the callback either the
    error or the style guide, whose sections \<^verbatim>\<open>jsonSections\<close> turns into records;
  \<^item> \<open>assignParams\<close> is \<^verbatim>\<open>_.assign(section, kssAdditionalParams.get(block.kss))\<close>;
  \<^item> \<open>extname\<close> is \<^verbatim>\<open>path.extname\<close>.
\<close>

record externals =
  getBlocks :: "string \<Rightarrow> string \<Rightarrow> error + block list"
  parse :: "string \<Rightarrow> error + kss_section list"
  assignParams :: "string \<Rightarrow> kss_section \<Rightarrow> kss_section"
  extname :: "string \<Rightarrow> string"

definition is_linebreak :: "char \<Rightarrow> bool" where
  "is_linebreak c = (c = CHR 0x0D \<or> c = CHR 0x0A)"

text \<open>\<^verbatim>\<open>trimLinebreaks\<close>: a missing or empty string is returned as it is.\<close>

definition trimLinebreaks :: "string option \<Rightarrow> string option" where
  "trimLinebreaks str =
     (case str of
        None \<Rightarrow> None
      | Some s \<Rightarrow>
          if s = [] then Some s
          else Some (rev (dropWhile is_linebreak (rev (dropWhile is_linebreak s)))))"

definition splitter_warning :: string where
  "splitter_warning =
     ''Warning: KSS splitter returned more than 1 KSS block. Styleguide might not be properly generated.''"

text \<open>The related CSS is added to a section when there is any.\<close>

definition add_css :: "string option \<Rightarrow> kss_section \<Rightarrow> kss_section" where
  "add_css blockStyles sec =
     (case blockStyles of
        Some styles \<Rightarrow> if styles \<noteq> [] then sec\<lparr>css := Some styles\<rparr> else sec
      | None \<Rightarrow> sec)"

text \<open>\<^verbatim>\<open>processBlock\<close>: what it writes to the console and how its promise ends.\<close>

definition processBlock :: "externals \<Rightarrow> block \<Rightarrow> log_entry list \<times> kss_section list promise" where
  "processBlock ext blk =
     (case parse ext (blk_kss blk) of
        Inl err \<Rightarrow> ([ConsoleError ''  error processing kss block'' err], Rejected err)
      | Inr section \<Rightarrow>
          if length section > 0 then
            (let warnings = (if length section > 1 then [ConsoleWarn splitter_warning] else []);
                 blockStyles = trimLinebreaks (blk_code blk);
                 first = add_css blockStyles (assignParams ext (blk_kss blk) (section ! 0))
             in (warnings, Fulfilled (section[0 := first])))
          else ([], Fulfilled section))"

text \<open>\<^verbatim>\<open>Q.all\<close>: rejected when a promise of the list is rejected (with the first
  rejection of the list), fulfilled with all the values when all are fulfilled, and not
  settled otherwise.\<close>

fun first_rejection :: "'a promise list \<Rightarrow> error option" where
  "first_rejection [] = None"
| "first_rejection (Rejected e # ps) = Some e"
| "first_rejection (p # ps) = first_rejection ps"

fun fulfilled_values :: "'a promise list \<Rightarrow> 'a list option" where
  "fulfilled_values [] = Some []"
| "fulfilled_values (Fulfilled v # ps) = map_option ((#) v) (fulfilled_values ps)"
| "fulfilled_values (p # ps) = None"

definition Q_all :: "'a promise list \<Rightarrow> 'a list promise" where
  "Q_all ps =
     (case first_rejection ps of
        Some e \<Rightarrow> Rejected e
      | None \<Rightarrow> (case fulfilled_values ps of Some vs \<Rightarrow> Fulfilled vs | None \<Rightarrow> Pending))"

text \<open>The reducer of \<^verbatim>\<open>processFile\<close>: the sections of a block, tagged with the syntax
  and the file, after those of the blocks before it.\<close>

definition tag_block :: "string \<Rightarrow> string \<Rightarrow> kss_section \<Rightarrow> kss_section" where
  "tag_block syn filePath currentBlock = currentBlock\<lparr>sec_syntax := Some syn, sec_file := Some filePath\<rparr>"

definition collect_blocks :: "string \<Rightarrow> string \<Rightarrow> kss_section list list \<Rightarrow> kss_section list" where
  "collect_blocks syn filePath results =
     foldl (\<lambda>memo blockResult.
              if length blockResult > 0 then memo @ map (tag_block syn filePath) blockResult
              else memo) [] results"

text \<open>
  \<^verbatim>\<open>processFile\<close>. Its promise is rejected only by the \<^verbatim>\<open>catch\<close> around the splitter
  and fulfilled only by the handler given to \<^verbatim>\<open>Q.all(blockPromises).then\<close>, which has
  no handler for a rejection: when a block promise is rejected no one settles the promise
  of the file.
\<close>

definition processFile ::
  "externals \<Rightarrow> string \<Rightarrow> string \<Rightarrow> string \<Rightarrow> log_entry list \<times> kss_section list promise"
where
  "processFile ext contents filePath syn =
     (if contents = [] then ([], Fulfilled [])
      else
        (case getBlocks ext contents syn of
           Inl err \<Rightarrow> ([], Rejected err)
         | Inr blocks \<Rightarrow>
             (let outcomes = map (processBlock ext) blocks
              in (concat (map fst outcomes),
                  (case Q_all (map snd outcomes) of
                     Fulfilled results \<Rightarrow> Fulfilled (collect_blocks syn filePath results)
                   | Rejected err \<Rightarrow> Pending
                   | Pending \<Rightarrow> Pending)))))"

text \<open>\<^verbatim>\<open>parseKssSections\<close>; the files are the pairs of the object in the order of its
  keys.\<close>

definition parseKssSections ::
  "externals \<Rightarrow> (string \<times> string) list \<Rightarrow> log_entry list \<times> kss_section list promise"
where
  "parseKssSections ext files =
     (let outcomes = map (\<lambda>(filePath, contents).
                            processFile ext contents filePath (drop 1 (extname ext filePath))) files
      in (concat (map fst outcomes),
          (case Q_all (map snd outcomes) of
             Fulfilled results \<Rightarrow>
               (case sortedSections (concat results) of
                  Inl err \<Rightarrow> Rejected err
                | Inr sortedSecs \<Rightarrow> Fulfilled sortedSecs)
           | Rejected err \<Rightarrow> Rejected err
           | Pending \<Rightarrow> Pending)))"

section \<open>The sorter on a store\<close>

text \<open>
  Sections are objects and the collection is an array of them, so a caller that keeps
  the collection sees what the sorter writes unless the sorter works on a copy. The store
  holds the objects and the arrays, an address is an index. \<^verbatim>\<open>_.clone(sections, true)\<close>
  is lodash's deep clone: a new array of new objects with the same field values.
\<close>

record store =
  objects :: "kss_section list"
  arrays :: "nat list list"

definition clone_deep :: "store \<Rightarrow> nat \<Rightarrow> store \<times> nat" where
  "clone_deep s arr =
     (let elems = arrays s ! arr;
          n = length (objects s)
      in (s\<lparr>objects := objects s @ map (\<lambda>a. objects s ! a) elems,
            arrays := arrays s @ [[n ..< n + length elems]]\<rparr>,
          length (arrays s)))"

record KssNodeSorter_at =
  sections_at :: nat
  weightMap_at :: "string \<rightharpoonup> int"

definition read_array :: "store \<Rightarrow> nat \<Rightarrow> kss_section list" where
  "read_array s arr = map (\<lambda>a. objects s ! a) (arrays s ! arr)"

definition new_KssNodeSorter_at :: "store \<Rightarrow> nat \<Rightarrow> store \<times> KssNodeSorter_at" where
  "new_KssNodeSorter_at s arr =
     (let (s', copy) = clone_deep s arr
      in (s', \<lparr>sections_at = copy, weightMap_at = initWeightMap (read_array s' copy)\<rparr>))"

text \<open>The numbering loop on the store: \<^verbatim>\<open>previousSection\<close> is the address of the
  object, which is read when the message is built, and each section is written back to
  its own address.\<close>

record numbering_at =
  previousRef_at :: "string list"
  previousSection_at :: "nat option"
  autoIncrement_at :: "nat list"

definition read_numbering :: "kss_section list \<Rightarrow> numbering_at \<Rightarrow> numbering" where
  "read_numbering objs st =
     \<lparr>previousRef = previousRef_at st,
      previousSection = map_option (\<lambda>a. objs ! a) (previousSection_at st),
      autoIncrement = autoIncrement_at st\<rparr>"

fun number_sections_at ::
  "kss_section list \<Rightarrow> numbering_at \<Rightarrow> nat list \<Rightarrow> kss_section list \<times> error option"
where
  "number_sections_at objs st [] = (objs, None)"
| "number_sections_at objs st (a # as) =
     (case number_section (read_numbering objs st) (objs ! a) of
        Inl e \<Rightarrow> (objs, Some e)
      | Inr (st', sec') \<Rightarrow>
          number_sections_at (objs[a := sec'])
            \<lparr>previousRef_at = previousRef st', previousSection_at = Some a,
             autoIncrement_at = autoIncrement st'\<rparr> as)"

definition KssNodeSorter_sort_at :: "store \<Rightarrow> KssNodeSorter_at \<Rightarrow> store \<times> error option" where
  "KssNodeSorter_sort_at s kns =
     (let arr = sections_at kns;
          sorted = array_sort (\<lambda>a b. likeKssNode (weightMap_at kns) (objects s ! a) (objects s ! b))
                     (arrays s ! arr);
          (objs, err) = number_sections_at (objects s)
                          \<lparr>previousRef_at = [], previousSection_at = None, autoIncrement_at = [0]\<rparr>
                          sorted
      in (s\<lparr>objects := objs, arrays := (arrays s)[arr := sorted]\<rparr>, err))"

text \<open>The \<^verbatim>\<open>try\<close> block of \<^verbatim>\<open>parseKssSections\<close> on the store: the final store, and the
  address of the sorter's array or the error.\<close>

definition sortedSections_at :: "store \<Rightarrow> nat \<Rightarrow> store \<times> (error + nat)" where
  "sortedSections_at s arr =
     (let (s1, kns) = new_KssNodeSorter_at s arr;
          (s2, err) = KssNodeSorter_sort_at s1 kns
      in (s2, (case err of Some e \<Rightarrow> Inl e | None \<Rightarrow> Inr (sections_at kns))))"

section \<open>Collaborators for the examples\<close>

text \<open>A splitter that takes the whole file for one block with some code after it, no
  additional parameters, the extension \<^verbatim>\<open>.css\<close>; a parser that finds two sections in
  every comment, and one that fails on the comment \<^verbatim>\<open>bad\<close>.\<close>

definition whole_file_splitter :: "string \<Rightarrow> string \<Rightarrow> error + block list" where
  "whole_file_splitter contents syn = Inr [\<lparr>blk_kss = contents, blk_code = Some (CHR 0x0A # ''a {}'' @ [CHR 0x0A])\<rparr>]"

definition no_params :: "string \<Rightarrow> kss_section \<Rightarrow> kss_section" where
  "no_params kss sec = sec"

definition css_extname :: "string \<Rightarrow> string" where
  "css_extname filePath = ''.css''"

definition two_sections_parser :: "string \<Rightarrow> error + kss_section list" where
  "two_sections_parser kss = Inr [plain_section ''One'' ''1'' 0, plain_section ''Two'' ''2'' 0]"

definition failing_parser :: "string \<Rightarrow> error + kss_section list" where
  "failing_parser kss =
     (if kss = ''bad'' then Inl (ParserError ''bad block'') else Inr [plain_section kss ''1'' 0])"

definition example_externals :: "(string \<Rightarrow> error + kss_section list) \<Rightarrow> externals" where
  "example_externals p =
     \<lparr>getBlocks = whole_file_splitter, parse = p, assignParams = no_params, extname = css_extname\<rparr>"

section \<open>Evaluation rules for the examples\<close>

lemma char_eq_char_of_iff: "(c = char_of n) = (take_bit 8 n = of_char c)"
  using char_of_eq_iff [of n c] by auto

lemmas string_eval = is_space_def is_digit_def toLowerCase_def toLowerCase_char_def
  char_of_eq_iff char_eq_char_of_iff digit_char_def decimal.simps digit_value_def
  digits_value_def to_number_def to_double_def round_double_def
  all_digits_def numeric_reference_def quote_def extend_first_def
  dash_follows_def

lemmas sorter_eval = object_of_pairs_def initWeightMap_def new_KssNodeSorter_def getWeight_def
  weight_number_def
  chunk_at_def truthy_def likeKssNode_from.simps likeKssNode_def array_sort_def
  initial_numbering_def find_incrementIndex.simps collision_message_def number_section_def
  renumber_def convertKssReferenceString2Number_def KssNodeSorter_sort_def
  sortedSections_def plain_section_def Let_def

lemmas pipeline_eval = whole_file_splitter_def no_params_def css_extname_def two_sections_parser_def
  failing_parser_def example_externals_def processBlock_def processFile_def parseKssSections_def
  Q_all_def collect_blocks_def tag_block_def trimLinebreaks_def is_linebreak_def add_css_def

section \<open>The Forms example\<close>

text \<open>
  C1. The three sections "Forms - Buttons", "Forms" and "Forms - Inputs", all of weight 0,
  are sorted to Forms, Forms - Buttons, Forms - Inputs, and the numbering then throws:
  after "Forms" the path of "Forms - Buttons" leaves the previous path at index 1, which
  is the length of the auto-increment, and that is the branch of the collision error. No
  reference 1, 1.1 and 1.2 is assigned.
\<close>

theorem forms_example_throws:
  "array_sort
     (likeKssNode (initWeightMap
        [plain_section ''Buttons'' ''Forms - Buttons'' 0, plain_section ''Forms'' ''Forms'' 0,
         plain_section ''Inputs'' ''Forms - Inputs'' 0]))
     [plain_section ''Buttons'' ''Forms - Buttons'' 0, plain_section ''Forms'' ''Forms'' 0,
      plain_section ''Inputs'' ''Forms - Inputs'' 0]
   = [plain_section ''Forms'' ''Forms'' 0, plain_section ''Buttons'' ''Forms - Buttons'' 0,
      plain_section ''Inputs'' ''Forms - Inputs'' 0]
   \<and> sortedSections
     [plain_section ''Buttons'' ''Forms - Buttons'' 0, plain_section ''Forms'' ''Forms'' 0,
      plain_section ''Inputs'' ''Forms - Inputs'' 0]
   = Inl (PluginError ''kss-parser''
       (''Two sections defined with same reference 1: '' @ quote ''Forms'' @ '' and '' @
        quote ''Buttons''))"
  by (simp add: string_eval sorter_eval)

section \<open>Doubles\<close>

lemma round_double_small: "n < 2 ^ 53 \<Longrightarrow> round_double n = n"
  by (simp add: round_double_def)

lemma to_double_small:
  assumes "\<bar>d\<bar> < 2 ^ 53"
  shows "to_double d = Num d"
proof -
  have "int (nat \<bar>d\<bar>) < int (2 ^ 53)" using assms by simp
  then have small: "nat \<bar>d\<bar> < 2 ^ 53" by (simp only: of_nat_less_iff)
  then have r: "round_double (nat \<bar>d\<bar>) = nat \<bar>d\<bar>" by (rule round_double_small)
  have "(2::nat) ^ 53 \<le> 2 ^ 1024" by (rule power_increasing) simp_all
  then have "\<not> 2 ^ 1024 \<le> nat \<bar>d\<bar>" using small by linarith
  then show ?thesis by (simp add: to_double_def r Let_def)
qed

lemma bit_length_bound: "0 < n \<Longrightarrow> 2 ^ (bit_length n - 1) \<le> n"
proof (induction n rule: bit_length.induct)
  case (1 n)
  have bl: "bit_length n = Suc (bit_length (n div 2))"
    using 1(2) by (subst bit_length.simps) simp
  show ?case
  proof (cases "n div 2 = 0")
    case True
    then have "bit_length (n div 2) = 0" by (subst bit_length.simps) simp
    then show ?thesis using 1(2) bl by simp
  next
    case False
    then have ih: "2 ^ (bit_length (n div 2) - 1) \<le> n div 2"
      using 1 by simp
    have "bit_length (n div 2) = Suc (bit_length (n div 2 div 2))"
      using False by (subst bit_length.simps) simp
    then have "bit_length (n div 2) = Suc (bit_length (n div 2) - 1)"
      by simp
    then have "(2::nat) ^ bit_length (n div 2) = 2 * 2 ^ (bit_length (n div 2) - 1)"
      by (metis power_Suc)
    also have "\<dots> \<le> 2 * (n div 2)" using ih by simp
    also have "\<dots> \<le> n" by simp
    finally show ?thesis using bl by simp
  qed
qed

lemma round_double_pos:
  assumes "0 < n"
  shows "0 < round_double n"
proof (cases "n < 2 ^ 53")
  case True
  then show ?thesis using assms by (simp add: round_double_small)
next
  case False
  let ?e = "bit_length n - 53"
  have "(2::nat) ^ ?e \<le> 2 ^ (bit_length n - 1)"
    by (rule power_increasing) simp_all
  also have "\<dots> \<le> n" using assms by (rule bit_length_bound)
  finally have "1 \<le> n div 2 ^ ?e"
    by (simp add: div_greater_zero_iff Suc_le_eq)
  then have q: "0 < n div 2 ^ ?e" by simp
  show ?thesis
    using False q by (simp add: round_double_def Let_def)
qed

lemma round_double_zero: "round_double 0 = 0"
  by (simp add: round_double_def)

lemma to_double_sign:
  shows "js_negative (to_double d) = (d < 0)" and "js_positive (to_double d) = (0 < d)"
proof -
  consider "d < 0" | "d = 0" | "0 < d" by linarith
  then have "js_negative (to_double d) = (d < 0) \<and> js_positive (to_double d) = (0 < d)"
  proof cases
    case 1
    then have "0 < round_double (nat \<bar>d\<bar>)" by (intro round_double_pos) simp
    then show ?thesis using 1 by (simp add: to_double_def Let_def)
  next
    case 2
    then show ?thesis by (simp add: to_double_def Let_def round_double_zero)
  next
    case 3
    then have "0 < round_double (nat \<bar>d\<bar>)" by (intro round_double_pos) simp
    then show ?thesis using 3 by (simp add: to_double_def Let_def)
  qed
  then show "js_negative (to_double d) = (d < 0)" and "js_positive (to_double d) = (0 < d)"
    by simp_all
qed

section \<open>The comparator\<close>

lemma likeKssNode_from_skip:
  assumes "take k refsA = take k refsB" and "[] \<notin> set (take k refsA)"
    and "k \<le> length refsA" and "k \<le> length refsB" and "i \<le> k" and "k \<le> l"
  shows "likeKssNode_from wm a b refsA refsB i l = likeKssNode_from wm a b refsA refsB k l"
  using \<open>i \<le> k\<close>
proof (induction i rule: inc_induct)
  case base
  show ?case by simp
next
  case (step n)
  have n: "n < length refsA" "n < length refsB" "n < l"
    using step.hyps assms by auto
  have "refsA ! n = take k refsA ! n" using step.hyps by simp
  moreover have "refsB ! n = take k refsB ! n" using step.hyps by simp
  ultimately have eq: "refsA ! n = refsB ! n" using assms(1) by simp
  have "take k refsA ! n \<in> set (take k refsA)"
    using step.hyps assms(3) by (intro nth_mem) simp
  then have ne: "refsA ! n \<noteq> []" using assms(2) step.hyps by auto
  have "likeKssNode_from wm a b refsA refsB n l = likeKssNode_from wm a b refsA refsB (n + 1) l"
    using n eq ne by (subst likeKssNode_from.simps) (simp add: chunk_at_def truthy_def)
  then show ?case using step.IH by simp
qed

lemma likeKssNode_from_diverge:
  assumes "k < length refsA" and "k < length refsB" and "k < l"
    and "refsA ! k \<noteq> []" and "refsB ! k \<noteq> []" and "refsA ! k \<noteq> refsB ! k"
  shows "likeKssNode_from wm a b refsA refsB k l =
     (let weightA = getWeight wm (reference a) (Some k);
          weightB = getWeight wm (reference b) (Some k)
      in if weightA \<noteq> weightB then js_minus (weight_number weightA) (weight_number weightB)
         else if all_digits (refsA ! k) \<and> all_digits (refsB ! k)
           then js_minus (to_number (refsA ! k)) (to_number (refsB ! k))
         else if string_gt (refsA ! k) (refsB ! k) then Num 1 else Num (- 1))"
  using assms by (subst likeKssNode_from.simps) (simp add: chunk_at_def truthy_def)

lemma likeKssNode_first_divergence:
  assumes "refsA = split_chunks (toLowerCase (reference a))"
    and "refsB = split_chunks (toLowerCase (reference b))"
    and "k < length refsA" and "k < length refsB"
    and "take k refsA = take k refsB" and "[] \<notin> set (take k refsA)"
    and "refsA ! k \<noteq> []" and "refsB ! k \<noteq> []" and "refsA ! k \<noteq> refsB ! k"
  shows "likeKssNode wm a b =
     (let weightA = getWeight wm (reference a) (Some k);
          weightB = getWeight wm (reference b) (Some k)
      in if weightA \<noteq> weightB then js_minus (weight_number weightA) (weight_number weightB)
         else if all_digits (refsA ! k) \<and> all_digits (refsB ! k)
           then js_minus (to_number (refsA ! k)) (to_number (refsB ! k))
         else if string_gt (refsA ! k) (refsB ! k) then Num 1 else Num (- 1))"
proof -
  let ?l = "max (length refsA) (length refsB)"
  have "likeKssNode wm a b = likeKssNode_from wm a b refsA refsB 0 ?l"
    using assms(1,2) by (simp add: likeKssNode_def Let_def)
  also have "\<dots> = likeKssNode_from wm a b refsA refsB k ?l"
    using assms by (intro likeKssNode_from_skip) auto
  also have "\<dots> = (let weightA = getWeight wm (reference a) (Some k);
          weightB = getWeight wm (reference b) (Some k)
      in if weightA \<noteq> weightB then js_minus (weight_number weightA) (weight_number weightB)
         else if all_digits (refsA ! k) \<and> all_digits (refsB ! k)
           then js_minus (to_number (refsA ! k)) (to_number (refsB ! k))
         else if string_gt (refsA ! k) (refsB ! k) then Num 1 else Num (- 1))"
    using assms by (intro likeKssNode_from_diverge) auto
  finally show ?thesis .
qed

text \<open>The weight looked up is a number unless the reference cut to the depth is
  \<^verbatim>\<open>constructor\<close> or \<^verbatim>\<open>__proto__\<close> and no section declares it.\<close>

lemma getWeight_number:
  assumes "key = join_dot (take (k + 1) (split_dot (replace_dashes (toLowerCase r))))"
    and "wm key \<noteq> None \<or> (key \<noteq> ''constructor'' \<and> key \<noteq> ''__proto__'')"
  shows "getWeight wm r (Some k) = Weight (case wm key of Some w \<Rightarrow> w | None \<Rightarrow> 0)"
  using assms by (auto simp add: getWeight_def Let_def split: option.splits)

lemma getWeight_inherited:
  assumes "key = join_dot (take (k + 1) (split_dot (replace_dashes (toLowerCase r))))"
    and "wm key = None"
  shows "key = ''constructor'' \<Longrightarrow> getWeight wm r (Some k) = ObjectFunction"
    and "key = ''__proto__'' \<Longrightarrow> getWeight wm r (Some k) = ObjectPrototype"
  using assms by (simp_all add: getWeight_def Let_def)

text \<open>
  C7 as claimed does not hold. The comparator takes an empty piece of a reference for a
  missing chunk and stops there: "x..a" of weight 1 and "x..b" of weight 0 have the
  pieces x, empty, a and x, empty, b, which first differ at depth 2, where the weights
  looked up are 1 and 0; the comparator returns -1 at depth 1 in both directions, so it
  orders "x..a", of the higher weight, first. And a weight that is absent is not always
  0: with no section "constructor", the reference "constructor.a" cut to depth 0 finds
  the function every object inherits under that name, and against a section "x" of
  weight 5 the comparator returns NaN in both directions, which orders neither first.
\<close>

theorem weight_precedence_fails:
  "split_chunks (toLowerCase ''x..a'') = [''x'', [], ''a'']
   \<and> split_chunks (toLowerCase ''x..b'') = [''x'', [], ''b'']
   \<and> getWeight (initWeightMap [plain_section ''A'' ''x..a'' 1, plain_section ''B'' ''x..b'' 0])
        ''x..a'' (Some 2) = Weight 1
   \<and> getWeight (initWeightMap [plain_section ''A'' ''x..a'' 1, plain_section ''B'' ''x..b'' 0])
        ''x..b'' (Some 2) = Weight 0
   \<and> likeKssNode (initWeightMap [plain_section ''A'' ''x..a'' 1, plain_section ''B'' ''x..b'' 0])
        (plain_section ''A'' ''x..a'' 1) (plain_section ''B'' ''x..b'' 0) = Num (- 1)
   \<and> likeKssNode (initWeightMap [plain_section ''A'' ''x..a'' 1, plain_section ''B'' ''x..b'' 0])
        (plain_section ''B'' ''x..b'' 0) (plain_section ''A'' ''x..a'' 1) = Num (- 1)
   \<and> split_chunks (toLowerCase ''constructor.a'') = [''constructor'', ''a'']
   \<and> split_chunks (toLowerCase ''x'') = [''x'']
   \<and> getWeight (initWeightMap [plain_section ''C'' ''constructor.a'' 0, plain_section ''X'' ''x'' 5])
        ''constructor.a'' (Some 0) = ObjectFunction
   \<and> getWeight (initWeightMap [plain_section ''C'' ''constructor.a'' 0, plain_section ''X'' ''x'' 5])
        ''x'' (Some 0) = Weight 5
   \<and> likeKssNode (initWeightMap [plain_section ''C'' ''constructor.a'' 0, plain_section ''X'' ''x'' 5])
        (plain_section ''C'' ''constructor.a'' 0) (plain_section ''X'' ''x'' 5) = NaN
   \<and> likeKssNode (initWeightMap [plain_section ''C'' ''constructor.a'' 0, plain_section ''X'' ''x'' 5])
        (plain_section ''X'' ''x'' 5) (plain_section ''C'' ''constructor.a'' 0) = NaN"
  by (simp add: string_eval sorter_eval)

text \<open>
  C7, amended. Where the chunks of two references first differ, at depth \<open>k\<close>, with a
  non-empty chunk on both sides at depth \<open>k\<close> and at every depth before it, and the
  weights looked up for the two references cut to depth \<open>k\<close> are numbers and differ, the
  comparator returns the difference of the weights as a double: a negative number when
  the first section has the lower weight, a positive one when it has the higher weight.
  The section of lower weight is ordered first. By \<open>getWeight_number\<close> the weight looked
  up is the weight in the map, or 0 when the cut reference is absent from it and is
  neither \<^verbatim>\<open>constructor\<close> nor \<^verbatim>\<open>__proto__\<close>.
\<close>

theorem likeKssNode_lower_weight_first:
  assumes "refsA = split_chunks (toLowerCase (reference a))"
    and "refsB = split_chunks (toLowerCase (reference b))"
    and "k < length refsA" and "k < length refsB"
    and "take k refsA = take k refsB" and "[] \<notin> set (take k refsA)"
    and "refsA ! k \<noteq> []" and "refsB ! k \<noteq> []" and "refsA ! k \<noteq> refsB ! k"
    and "getWeight wm (reference a) (Some k) = Weight wa"
    and "getWeight wm (reference b) (Some k) = Weight wb"
    and "wa \<noteq> wb"
  shows "likeKssNode wm a b = to_double (wa - wb)
    \<and> js_negative (likeKssNode wm a b) = (wa < wb)
    \<and> js_positive (likeKssNode wm a b) = (wb < wa)"
proof -
  have "likeKssNode wm a b = to_double (wa - wb)"
    using likeKssNode_first_divergence [OF assms(1-9), of wm] assms(10-12)
    by (simp add: Let_def weight_number_def)
  then show ?thesis by (simp add: to_double_sign)
qed

text \<open>"Base - Colors" of weight 1 and "Base - Typography" of weight 0: the comparator gives
  1, and the sort puts Typography before Colors.\<close>

theorem likeKssNode_lower_weight_first_witness:
  "split_chunks (toLowerCase ''Base - Colors'') = [''base'', ''colors'']
   \<and> split_chunks (toLowerCase ''Base - Typography'') = [''base'', ''typography'']
   \<and> getWeight (initWeightMap [plain_section ''Colors'' ''Base - Colors'' 1,
          plain_section ''Typography'' ''Base - Typography'' 0, plain_section ''Base'' ''Base'' 0])
        ''Base - Colors'' (Some 1) = Weight 1
   \<and> getWeight (initWeightMap [plain_section ''Colors'' ''Base - Colors'' 1,
          plain_section ''Typography'' ''Base - Typography'' 0, plain_section ''Base'' ''Base'' 0])
        ''Base - Typography'' (Some 1) = Weight 0
   \<and> likeKssNode (initWeightMap [plain_section ''Colors'' ''Base - Colors'' 1,
          plain_section ''Typography'' ''Base - Typography'' 0, plain_section ''Base'' ''Base'' 0])
        (plain_section ''Colors'' ''Base - Colors'' 1)
        (plain_section ''Typography'' ''Base - Typography'' 0) = Num 1
   \<and> js_positive (likeKssNode (initWeightMap [plain_section ''Colors'' ''Base - Colors'' 1,
          plain_section ''Typography'' ''Base - Typography'' 0, plain_section ''Base'' ''Base'' 0])
        (plain_section ''Colors'' ''Base - Colors'' 1)
        (plain_section ''Typography'' ''Base - Typography'' 0))
   \<and> array_sort (likeKssNode (initWeightMap [plain_section ''Colors'' ''Base - Colors'' 1,
          plain_section ''Typography'' ''Base - Typography'' 0, plain_section ''Base'' ''Base'' 0]))
        [plain_section ''Colors'' ''Base - Colors'' 1,
         plain_section ''Typography'' ''Base - Typography'' 0, plain_section ''Base'' ''Base'' 0]
      = [plain_section ''Base'' ''Base'' 0, plain_section ''Typography'' ''Base - Typography'' 0,
         plain_section ''Colors'' ''Base - Colors'' 1]"
proof -
  let ?a = "plain_section ''Colors'' ''Base - Colors'' 1"
  let ?b = "plain_section ''Typography'' ''Base - Typography'' 0"
  let ?wm = "initWeightMap [?a, ?b, plain_section ''Base'' ''Base'' 0]"
  have ca: "split_chunks (toLowerCase ''Base - Colors'') = [''base'', ''colors'']"
    by (simp add: string_eval)
  have cb: "split_chunks (toLowerCase ''Base - Typography'') = [''base'', ''typography'']"
    by (simp add: string_eval)
  have wa: "getWeight ?wm ''Base - Colors'' (Some 1) = Weight 1"
    by (simp add: string_eval sorter_eval)
  have wb: "getWeight ?wm ''Base - Typography'' (Some 1) = Weight 0"
    by (simp add: string_eval sorter_eval)
  have "likeKssNode ?wm ?a ?b = to_double (1 - 0)
      \<and> js_negative (likeKssNode ?wm ?a ?b) = ((1::int) < 0)
      \<and> js_positive (likeKssNode ?wm ?a ?b) = ((0::int) < 1)"
    using likeKssNode_lower_weight_first
      [of "[''base'', ''colors'']" ?a "[''base'', ''typography'']" ?b 1 ?wm 1 0]
      ca cb wa wb by (simp add: plain_section_def to_double_sign)
  then have cmp: "likeKssNode ?wm ?a ?b = Num 1" and pos: "js_positive (likeKssNode ?wm ?a ?b)"
    by (simp_all add: to_double_small)
  have srt: "array_sort (likeKssNode ?wm) [?a, ?b, plain_section ''Base'' ''Base'' 0]
      = [plain_section ''Base'' ''Base'' 0, ?b, ?a]"
    by (simp add: string_eval sorter_eval)
  show ?thesis using ca cb wa wb cmp pos srt by simp
qed

text \<open>
  C8 as claimed does not hold. With an empty piece before the numeric chunks the
  comparator stops at the empty piece: "x..2" against "x..1" is -1 in both directions,
  whatever the numbers. And the numbers are doubles: 9007199254740993 is read as
  9007199254740992, so "2.9007199254740993" against "2.9007199254740992" is 0 although
  the first number is the greater.
\<close>

theorem numeric_order_fails:
  "split_chunks (toLowerCase ''x..2'') = [''x'', [], ''2'']
   \<and> split_chunks (toLowerCase ''x..1'') = [''x'', [], ''1'']
   \<and> getWeight (initWeightMap [plain_section ''Two'' ''x..2'' 0, plain_section ''One'' ''x..1'' 0])
        ''x..2'' (Some 2) = Weight 0
   \<and> getWeight (initWeightMap [plain_section ''Two'' ''x..2'' 0, plain_section ''One'' ''x..1'' 0])
        ''x..1'' (Some 2) = Weight 0
   \<and> likeKssNode (initWeightMap [plain_section ''Two'' ''x..2'' 0, plain_section ''One'' ''x..1'' 0])
        (plain_section ''Two'' ''x..2'' 0) (plain_section ''One'' ''x..1'' 0) = Num (- 1)
   \<and> likeKssNode (initWeightMap [plain_section ''Two'' ''x..2'' 0, plain_section ''One'' ''x..1'' 0])
        (plain_section ''One'' ''x..1'' 0) (plain_section ''Two'' ''x..2'' 0) = Num (- 1)
   \<and> split_chunks (toLowerCase ''2.9007199254740993'') = [''2'', ''9007199254740993'']
   \<and> split_chunks (toLowerCase ''2.9007199254740992'') = [''2'', ''9007199254740992'']
   \<and> digits_value ''9007199254740993'' = 9007199254740993
   \<and> digits_value ''9007199254740992'' = 9007199254740992
   \<and> to_number ''9007199254740993'' = Num 9007199254740992
   \<and> likeKssNode (initWeightMap [plain_section ''Odd'' ''2.9007199254740993'' 0,
          plain_section ''Even'' ''2.9007199254740992'' 0])
        (plain_section ''Odd'' ''2.9007199254740993'' 0)
        (plain_section ''Even'' ''2.9007199254740992'' 0) = Num 0"
  by (simp add: string_eval sorter_eval bit_length.simps)

text \<open>
  C8, amended. Where the chunks of two references first differ, at depth \<open>k\<close>, with a
  non-empty chunk on both sides at every depth before it, both chunks at depth \<open>k\<close> are
  made of digits only and denote numbers below \<open>2 ^ 53\<close>, and the weights looked up at
  that depth are equal, the comparator returns the difference of the two numbers: a
  negative number when the first is the smaller, a positive one when it is the greater.
  The sections are ordered by the value of the chunks.
\<close>

theorem likeKssNode_numeric_chunks:
  assumes "refsA = split_chunks (toLowerCase (reference a))"
    and "refsB = split_chunks (toLowerCase (reference b))"
    and "k < length refsA" and "k < length refsB"
    and "take k refsA = take k refsB" and "[] \<notin> set (take k refsA)"
    and "refsA ! k \<noteq> refsB ! k"
    and "all_digits (refsA ! k)" and "all_digits (refsB ! k)"
    and "digits_value (refsA ! k) < 2 ^ 53" and "digits_value (refsB ! k) < 2 ^ 53"
    and "getWeight wm (reference a) (Some k) = getWeight wm (reference b) (Some k)"
  shows "likeKssNode wm a b = Num (int (digits_value (refsA ! k)) - int (digits_value (refsB ! k)))
    \<and> js_negative (likeKssNode wm a b) = (digits_value (refsA ! k) < digits_value (refsB ! k))
    \<and> js_positive (likeKssNode wm a b) = (digits_value (refsB ! k) < digits_value (refsA ! k))"
proof -
  let ?x = "digits_value (refsA ! k)"
  let ?y = "digits_value (refsB ! k)"
  have ne: "refsA ! k \<noteq> []" "refsB ! k \<noteq> []"
    using assms(8,9) by (simp_all add: all_digits_def)
  have x: "int ?x < 2 ^ 53" and y: "int ?y < 2 ^ 53"
    using assms(10,11) by (simp_all only: of_nat_less_iff [symmetric, where 'a = int]) simp_all
  have nx: "to_number (refsA ! k) = Num (int ?x)" and ny: "to_number (refsB ! k) = Num (int ?y)"
    using x y by (simp_all add: to_number_def to_double_small)
  have "\<bar>int ?x - int ?y\<bar> < 2 ^ 53" using x y by linarith
  then have d: "to_double (int ?x - int ?y) = Num (int ?x - int ?y)"
    by (rule to_double_small)
  have "likeKssNode wm a b = Num (int ?x - int ?y)"
    using likeKssNode_first_divergence [OF assms(1-6) ne assms(7), of wm] assms(8,9,12) nx ny d
    by (simp add: Let_def)
  then show ?thesis by auto
qed

text \<open>"2.10" against "2.9": 10 is after 9, although the string "9" is greater than the
  string "10".\<close>

theorem likeKssNode_numeric_chunks_witness:
  "split_chunks (toLowerCase ''2.10'') = [''2'', ''10'']
   \<and> split_chunks (toLowerCase ''2.9'') = [''2'', ''9'']
   \<and> digits_value ''10'' = 10 \<and> digits_value ''9'' = 9
   \<and> string_gt ''9'' ''10''
   \<and> likeKssNode (initWeightMap [plain_section ''Ten'' ''2.10'' 0, plain_section ''Nine'' ''2.9'' 0])
        (plain_section ''Ten'' ''2.10'' 0) (plain_section ''Nine'' ''2.9'' 0) = Num 1
   \<and> js_positive (likeKssNode (initWeightMap [plain_section ''Ten'' ''2.10'' 0, plain_section ''Nine'' ''2.9'' 0])
        (plain_section ''Ten'' ''2.10'' 0) (plain_section ''Nine'' ''2.9'' 0))
   \<and> array_sort (likeKssNode (initWeightMap [plain_section ''Ten'' ''2.10'' 0, plain_section ''Nine'' ''2.9'' 0]))
        [plain_section ''Ten'' ''2.10'' 0, plain_section ''Nine'' ''2.9'' 0]
      = [plain_section ''Nine'' ''2.9'' 0, plain_section ''Ten'' ''2.10'' 0]"
proof -
  let ?a = "plain_section ''Ten'' ''2.10'' 0"
  let ?b = "plain_section ''Nine'' ''2.9'' 0"
  let ?wm = "initWeightMap [?a, ?b]"
  have ca: "split_chunks (toLowerCase ''2.10'') = [''2'', ''10'']"
    by (simp add: string_eval)
  have cb: "split_chunks (toLowerCase ''2.9'') = [''2'', ''9'']"
    by (simp add: string_eval)
  have na: "digits_value ''10'' = 10" and nb: "digits_value ''9'' = 9"
    by (simp_all add: string_eval)
  have d: "all_digits ''10''" "all_digits ''9''"
    by (simp_all add: string_eval)
  have w: "getWeight ?wm ''2.10'' (Some 1) = getWeight ?wm ''2.9'' (Some 1)"
    by (simp add: string_eval sorter_eval)
  have "likeKssNode ?wm ?a ?b = Num (int (digits_value ''10'') - int (digits_value ''9''))
      \<and> js_negative (likeKssNode ?wm ?a ?b) = (digits_value ''10'' < digits_value ''9'')
      \<and> js_positive (likeKssNode ?wm ?a ?b) = (digits_value ''9'' < digits_value ''10'')"
    using likeKssNode_numeric_chunks [of "[''2'', ''10'']" ?a "[''2'', ''9'']" ?b 1 ?wm]
      ca cb na nb d w by (simp add: plain_section_def)
  then have cmp: "likeKssNode ?wm ?a ?b = Num 1" and pos: "js_positive (likeKssNode ?wm ?a ?b)"
    using na nb by simp_all
  have gt: "string_gt ''9'' ''10''" by simp
  have srt: "array_sort (likeKssNode ?wm) [?a, ?b] = [?b, ?a]"
    by (simp add: string_eval sorter_eval)
  show ?thesis using ca cb na nb gt cmp pos srt by simp
qed

section \<open>The numbering pass\<close>

lemma find_incrementIndex_props:
  assumes "take i prev = take i ref" and "i \<le> length prev" and "i \<le> length ref"
  shows "i \<le> find_incrementIndex prev ref i i
    \<and> find_incrementIndex prev ref i i \<le> length prev
    \<and> find_incrementIndex prev ref i i \<le> length ref
    \<and> take (find_incrementIndex prev ref i i) prev = take (find_incrementIndex prev ref i i) ref
    \<and> (find_incrementIndex prev ref i i < length prev \<longrightarrow>
         find_incrementIndex prev ref i i < length ref \<longrightarrow>
         prev ! find_incrementIndex prev ref i i \<noteq> ref ! find_incrementIndex prev ref i i)"
  using assms
proof (induction "length prev - i" arbitrary: i)
  case 0
  then have "find_incrementIndex prev ref i i = i"
    by (subst find_incrementIndex.simps) simp
  with 0 show ?case by simp
next
  case (Suc n)
  then have lt: "i < length prev" by simp
  show ?case
  proof (cases "i \<ge> length ref \<or> prev ! i \<noteq> ref ! i")
    case True
    then have "find_incrementIndex prev ref i i = i"
      using lt by (subst find_incrementIndex.simps) simp
    with Suc.prems True show ?thesis by auto
  next
    case False
    then have step: "find_incrementIndex prev ref i i = find_incrementIndex prev ref (i + 1) (i + 1)"
      using lt by (subst find_incrementIndex.simps) simp
    have "take (i + 1) prev = take (i + 1) ref"
      using False lt Suc.prems(1) by (simp add: take_Suc_conv_app_nth)
    moreover have "n = length prev - (i + 1)" using Suc.hyps(2) by simp
    ultimately have "i + 1 \<le> find_incrementIndex prev ref (i + 1) (i + 1)
      \<and> find_incrementIndex prev ref (i + 1) (i + 1) \<le> length prev
      \<and> find_incrementIndex prev ref (i + 1) (i + 1) \<le> length ref
      \<and> take (find_incrementIndex prev ref (i + 1) (i + 1)) prev = take (find_incrementIndex prev ref (i + 1) (i + 1)) ref
      \<and> (find_incrementIndex prev ref (i + 1) (i + 1) < length prev \<longrightarrow>
         find_incrementIndex prev ref (i + 1) (i + 1) < length ref \<longrightarrow>
         prev ! find_incrementIndex prev ref (i + 1) (i + 1) \<noteq> ref ! find_incrementIndex prev ref (i + 1) (i + 1))"
      using False lt by (intro Suc.hyps(1)) auto
    then show ?thesis unfolding step by auto
  qed
qed

lemma incrementIndex_props:
  defines "k prev ref \<equiv> find_incrementIndex prev ref 0 0"
  shows "k prev ref \<le> length prev" and "k prev ref \<le> length ref"
    and "take (k prev ref) prev = take (k prev ref) ref"
    and "k prev ref < length prev \<Longrightarrow> k prev ref < length ref \<Longrightarrow> prev ! k prev ref \<noteq> ref ! k prev ref"
  using find_incrementIndex_props [of 0 prev ref] by (simp_all add: k_def)

lemma number_section_cases:
  "number_section st sec =
     (let ref = split_dot (replace_dashes (reference sec));
          k = find_incrementIndex (previousRef st) ref 0 0;
          auto2 = take k (autoIncrement st) @ [autoIncrement st ! k + 1] @ replicate (length ref - (k + 1)) 1;
          sec' = renumber auto2 sec
      in if k < length (autoIncrement st)
         then Inr (\<lparr>previousRef = ref, previousSection = Some sec', autoIncrement = auto2\<rparr>, sec')
         else Inl (PluginError ''kss-parser'' (collision_message (previousSection st) sec)))"
  by (simp add: number_section_def Let_def take_Suc_conv_app_nth)

text \<open>When the new path starts with the whole previous path and the auto-increment is no
  longer than the previous path, the iteration throws. That is the case of a section
  with the same path as the one before it, and also of the first child that follows its
  parent.\<close>

lemma number_section_prefix_throws:
  assumes "take (length (previousRef st)) (split_dot (replace_dashes (reference sec))) = previousRef st"
    and "length (autoIncrement st) \<le> length (previousRef st)"
  shows "number_section st sec =
     Inl (PluginError ''kss-parser'' (collision_message (previousSection st) sec))"
proof -
  let ?prev = "previousRef st"
  let ?ref = "split_dot (replace_dashes (reference sec))"
  let ?k = "find_incrementIndex ?prev ?ref 0 0"
  have "length (take (length ?prev) ?ref) = length ?prev"
    using assms(1) by simp
  then have le: "length ?prev \<le> length ?ref"
    by (simp add: min_def split: if_splits)
  have "\<not> ?k < length ?prev"
  proof
    assume lt: "?k < length ?prev"
    then have "?k < length ?ref" using le by simp
    then have "?prev ! ?k \<noteq> ?ref ! ?k"
      using lt incrementIndex_props(4) [of ?prev ?ref] by simp
    moreover have "?prev ! ?k = take (length ?prev) ?ref ! ?k" using assms(1) by simp
    then have "?prev ! ?k = ?ref ! ?k" using lt by simp
    ultimately show False by simp
  qed
  then have "\<not> ?k < length (autoIncrement st)" using assms(2) by simp
  then show ?thesis by (simp add: number_section_cases Let_def)
qed

section \<open>What the numbering writes\<close>

lemma number_sections_append:
  "number_sections st (xs @ ys) =
     (case number_sections st xs of
        Inl e \<Rightarrow> Inl e
      | Inr (st1, xs') \<Rightarrow>
          (case number_sections st1 ys of
             Inl e \<Rightarrow> Inl e
           | Inr (st2, ys') \<Rightarrow> Inr (st2, xs' @ ys')))"
  by (induction xs arbitrary: st) (auto split: sum.splits prod.splits)

lemma number_sections_length:
  "number_sections st xs = Inr (st', out) \<Longrightarrow> length out = length xs"
  by (induction xs arbitrary: st out) (auto split: sum.splits prod.splits)

lemma numeric_reference_iff:
  "numeric_reference s =
     (\<not> (s = [] \<or> (\<exists>c\<in>set s. \<not> is_digit c \<and> c \<noteq> CHR ''.'' \<and> c \<noteq> CHR ''-'')))"
  by (auto simp: numeric_reference_def list_all_iff)

text \<open>
  C6, amended. A section that the numbering reaches and numbers without throwing: if its
  reference text is empty or holds a character other than a digit, a dot or a dash, it
  comes out with \<open>stringReference\<close> set to that text and \<open>reference\<close> set to the
  dot-joined auto-increment path of the state after it; otherwise it comes out as it
  went in. When the whole numbering succeeds, that is the section at its place in the
  output.
\<close>

theorem numbering_rewrites_reference:
  assumes "number_sections initial_numbering pre = Inr (st, pre')"
    and "number_section st sec = Inr (st', sec')"
  shows "(if reference sec = [] \<or>
           (\<exists>c\<in>set (reference sec). \<not> is_digit c \<and> c \<noteq> CHR ''.'' \<and> c \<noteq> CHR ''-'')
         then sec' = sec\<lparr>stringReference := Some (reference sec),
                         reference := join_dot (map decimal (autoIncrement st'))\<rparr>
         else sec' = sec)
    \<and> (\<forall>post out. convertKssReferenceString2Number (pre @ sec # post) = Inr out \<longrightarrow>
          out ! length pre = sec')"
proof -
  have one: "(if reference sec = [] \<or>
           (\<exists>c\<in>set (reference sec). \<not> is_digit c \<and> c \<noteq> CHR ''.'' \<and> c \<noteq> CHR ''-'')
        then sec' = sec\<lparr>stringReference := Some (reference sec),
                        reference := join_dot (map decimal (autoIncrement st'))\<rparr>
        else sec' = sec)"
    using assms(2) numeric_reference_iff [of "reference sec"]
    by (auto simp: number_section_def renumber_def Let_def split: if_splits)
  have len: "length pre' = length pre" using assms(1) by (rule number_sections_length)
  have two: "\<forall>post out. convertKssReferenceString2Number (pre @ sec # post) = Inr out \<longrightarrow>
          out ! length pre = sec'"
  proof (intro allI impI)
    fix post out
    assume "convertKssReferenceString2Number (pre @ sec # post) = Inr out"
    then obtain stf where "number_sections initial_numbering (pre @ sec # post) = Inr (stf, out)"
      by (auto simp: convertKssReferenceString2Number_def split: sum.splits prod.splits)
    then obtain post' where "out = pre' @ sec' # post'"
      using assms by (auto simp: number_sections_append split: sum.splits prod.splits)
    then show "out ! length pre = sec'" using len by (simp add: nth_append)
  qed
  show ?thesis using one two by blast
qed

theorem numbering_rewrites_reference_witness:
  "number_sections initial_numbering [plain_section ''A'' ''a.b'' 0]
   = Inr (\<lparr>previousRef = [''a'', ''b''],
            previousSection = Some ((plain_section ''A'' ''a.b'' 0)\<lparr>stringReference := Some ''a.b'', reference := ''1.1''\<rparr>),
            autoIncrement = [1, 1]\<rparr>,
          [(plain_section ''A'' ''a.b'' 0)\<lparr>stringReference := Some ''a.b'', reference := ''1.1''\<rparr>])
   \<and> number_section
        \<lparr>previousRef = [''a'', ''b''],
         previousSection = Some ((plain_section ''A'' ''a.b'' 0)\<lparr>stringReference := Some ''a.b'', reference := ''1.1''\<rparr>),
         autoIncrement = [1, 1]\<rparr>
        (plain_section ''C'' ''a - c'' 0)
   = Inr (\<lparr>previousRef = [''a'', ''c''],
            previousSection = Some ((plain_section ''C'' ''a - c'' 0)\<lparr>stringReference := Some ''a - c'', reference := ''1.2''\<rparr>),
            autoIncrement = [1, 2]\<rparr>,
          (plain_section ''C'' ''a - c'' 0)\<lparr>stringReference := Some ''a - c'', reference := ''1.2''\<rparr>)
   \<and> convertKssReferenceString2Number
     ([plain_section ''A'' ''a.b'' 0] @ plain_section ''C'' ''a - c'' 0 # [plain_section ''N'' ''2.5'' 0])
   = Inr [(plain_section ''A'' ''a.b'' 0)\<lparr>stringReference := Some ''a.b'', reference := ''1.1''\<rparr>,
          (plain_section ''C'' ''a - c'' 0)\<lparr>stringReference := Some ''a - c'', reference := ''1.2''\<rparr>,
          plain_section ''N'' ''2.5'' 0]"
proof -
  let ?a' = "(plain_section ''A'' ''a.b'' 0)\<lparr>stringReference := Some ''a.b'', reference := ''1.1''\<rparr>"
  let ?c = "plain_section ''C'' ''a - c'' 0"
  let ?c' = "?c\<lparr>stringReference := Some ''a - c'', reference := ''1.2''\<rparr>"
  let ?st = "\<lparr>previousRef = [''a'', ''b''], previousSection = Some ?a', autoIncrement = [1, 1]\<rparr>"
  let ?st' = "\<lparr>previousRef = [''a'', ''c''], previousSection = Some ?c', autoIncrement = [1, 2]\<rparr>"
  have h1: "number_sections initial_numbering [plain_section ''A'' ''a.b'' 0] = Inr (?st, [?a'])"
    by (simp add: string_eval sorter_eval)
  have h2: "number_section ?st ?c = Inr (?st', ?c')"
    by (simp add: string_eval sorter_eval)
  have h3: "convertKssReferenceString2Number ([plain_section ''A'' ''a.b'' 0] @ ?c # [plain_section ''N'' ''2.5'' 0])
      = Inr [?a', ?c', plain_section ''N'' ''2.5'' 0]"
    by (simp add: string_eval sorter_eval)
  have "[?a', ?c', plain_section ''N'' ''2.5'' 0] ! length [plain_section ''A'' ''a.b'' 0] = ?c'"
    using numbering_rewrites_reference [OF h1 h2] h3 by blast
  then show ?thesis using h1 h2 h3 by (intro conjI)
qed

text \<open>The empty reference has no character at all, and is rewritten: the test of the
  source asks for at least one character.\<close>

theorem empty_reference_rewritten:
  "set (reference (plain_section ''Header'' [] 0)) = {}
   \<and> convertKssReferenceString2Number [plain_section ''Header'' [] 0]
     = Inr [(plain_section ''Header'' [] 0)\<lparr>stringReference := Some [], reference := ''1''\<rparr>]"
  by (simp add: string_eval sorter_eval)

section \<open>Lower case\<close>

lemma of_char_lt_256: "(of_char c :: nat) < 256"
  by (metis of_char_of char_of_char mod_less_divisor zero_less_numeral)

lemma of_char_toLowerCase_char:
  "(of_char (toLowerCase_char c) :: nat) =
     (if (65 \<le> (of_char c :: nat) \<and> (of_char c :: nat) \<le> 90) \<or>
         (192 \<le> (of_char c :: nat) \<and> (of_char c :: nat) \<le> 222 \<and> (of_char c :: nat) \<noteq> 215)
      then of_char c + 32 else of_char c)"
  by (auto simp: toLowerCase_char_def Let_def)

lemma char_eq_iff_of_char: "(c = d) = ((of_char c :: nat) = of_char d)"
  by simp

lemma toLowerCase_char_space [simp]: "is_space (toLowerCase_char c) = is_space c"
  by (auto simp: is_space_def of_char_toLowerCase_char)

lemma toLowerCase_char_dash [simp]: "(toLowerCase_char c = CHR ''-'') = (c = CHR ''-'')"
  by (auto simp: char_eq_iff_of_char [of _ "CHR ''-''"] of_char_toLowerCase_char)

lemma toLowerCase_char_dot [simp]: "(toLowerCase_char c = CHR ''.'') = (c = CHR ''.'')"
  by (auto simp: char_eq_iff_of_char [of _ "CHR ''.''"] of_char_toLowerCase_char)

lemma toLowerCase_char_eq_space:
  assumes "toLowerCase_char c = toLowerCase_char d" and "is_space c"
  shows "c = d"
proof -
  have "is_space d" using assms by (metis toLowerCase_char_space)
  then have "toLowerCase_char d = d" by (auto simp: toLowerCase_char_def is_space_def Let_def)
  moreover have "toLowerCase_char c = c"
    using assms(2) by (auto simp: toLowerCase_char_def is_space_def Let_def)
  ultimately show ?thesis using assms(1) by simp
qed


lemma replace_dashes_Cons:
  "replace_dashes (c # cs) =
     (if is_space c \<and> dash_follows (dropWhile is_space cs)
      then CHR ''.'' # replace_dashes (dropWhile is_space (drop 2 (dropWhile is_space cs)))
      else c # replace_dashes cs)"
proof (cases "dropWhile is_space cs")
  case Nil
  show ?thesis by (simp add: Nil dash_follows_def)
next
  case outer: (Cons d ds)
  show ?thesis
  proof (cases ds)
    case Nil
    show ?thesis by (simp add: outer Nil dash_follows_def)
  next
    case (Cons e rest)
    show ?thesis by (simp add: outer Cons dash_follows_def)
  qed
qed

lemma toLowerCase_char_dot_eq [simp]: "toLowerCase_char CHR ''.'' = CHR ''.''"
  by (simp add: toLowerCase_char_def)

lemma dropWhile_space_lower:
  "dropWhile is_space (map toLowerCase_char xs) = map toLowerCase_char (dropWhile is_space xs)"
  by (induction xs) auto

lemma dash_follows_lower: "dash_follows (map toLowerCase_char xs) = dash_follows xs"
  by (auto simp: dash_follows_def split: list.splits)

lemma length_skip_less:
  "length (dropWhile is_space (drop 2 (dropWhile is_space cs))) < Suc (length cs)"
proof -
  have "length (dropWhile is_space (drop 2 (dropWhile is_space cs))) \<le> length (drop 2 (dropWhile is_space cs))"
    by (rule length_dropWhile_le)
  also have "\<dots> \<le> length (dropWhile is_space cs)" by simp
  also have "\<dots> \<le> length cs" by (rule length_dropWhile_le)
  finally show ?thesis by simp
qed

lemma replace_dashes_toLowerCase:
  "replace_dashes (toLowerCase s) = toLowerCase (replace_dashes s)"
proof (induction s rule: length_induct)
  case (1 s)
  show ?case
  proof (cases s)
    case Nil
    then show ?thesis by (simp add: toLowerCase_def)
  next
    case (Cons c cs)
    have ih1: "replace_dashes (toLowerCase cs) = toLowerCase (replace_dashes cs)"
      using 1 Cons by simp
    have ih2: "replace_dashes (toLowerCase (dropWhile is_space (drop 2 (dropWhile is_space cs)))) =
        toLowerCase (replace_dashes (dropWhile is_space (drop 2 (dropWhile is_space cs))))"
      using 1 Cons length_skip_less [of cs] by simp
    show ?thesis
      using ih1 ih2 unfolding Cons toLowerCase_def
      by (simp add: replace_dashes_Cons dropWhile_space_lower dash_follows_lower drop_map del: replace_dashes.simps)
  qed
qed

lemma split_dot_not_Nil [simp]: "split_dot s \<noteq> []"
  by (induction s) (auto simp: extend_first_def split: list.splits)

lemma split_dot_toLowerCase:
  "split_dot (toLowerCase s) = map toLowerCase (split_dot s)"
proof (induction s)
  case Nil
  show ?case by (simp add: toLowerCase_def)
next
  case (Cons c cs)
  then show ?case
    by (cases "split_dot cs") (auto simp: toLowerCase_def extend_first_def)
qed

lemma lower_equal_spaces:
  "map toLowerCase_char xs = map toLowerCase_char ys \<Longrightarrow>
   takeWhile is_space xs = takeWhile is_space ys \<and>
   map toLowerCase_char (dropWhile is_space xs) = map toLowerCase_char (dropWhile is_space ys)"
proof (induction xs arbitrary: ys)
  case Nil
  then show ?case by simp
next
  case (Cons x xs)
  then obtain y ys' where ys: "ys = y # ys'" and xy: "toLowerCase_char x = toLowerCase_char y"
    and rest: "map toLowerCase_char xs = map toLowerCase_char ys'"
    by (cases ys) auto
  have "is_space (toLowerCase_char y) = is_space (toLowerCase_char x)" using xy by simp
  then have sp: "is_space y = is_space x" by simp
  show ?case
  proof (cases "is_space x")
    case True
    have "x = y" using xy True by (rule toLowerCase_char_eq_space)
    then show ?thesis using True Cons.IH [OF rest] ys by simp
  next
    case False
    then show ?thesis using sp ys xy rest by simp
  qed
qed

lemma lower_equal_dropWhile_eq:
  assumes "map toLowerCase_char xs = map toLowerCase_char ys"
    and "dropWhile is_space xs = dropWhile is_space ys"
  shows "xs = ys"
proof -
  have "takeWhile is_space xs = takeWhile is_space ys"
    using lower_equal_spaces [OF assms(1)] by simp
  then have "takeWhile is_space xs @ dropWhile is_space xs = takeWhile is_space ys @ dropWhile is_space ys"
    using assms(2) by simp
  then show ?thesis by simp
qed

lemma lower_equal_drop2_eq:
  assumes "map toLowerCase_char xs = map toLowerCase_char ys"
    and "dash_follows xs" and "drop 2 xs = drop 2 ys"
  shows "xs = ys"
proof -
  from assms(2) obtain e rest where xs: "xs = CHR ''-'' # e # rest" and e: "is_space e"
    by (auto simp: dash_follows_def split: list.splits)
  from assms(1) xs obtain d ys1 where ys1: "ys = d # ys1"
    and d: "toLowerCase_char d = toLowerCase_char CHR ''-''"
    and low1: "map toLowerCase_char (e # rest) = map toLowerCase_char ys1"
    by (cases ys) auto
  from low1 obtain e' rest' where ys2: "ys1 = e' # rest'"
    and e': "toLowerCase_char e = toLowerCase_char e'"
    by (cases ys1) auto
  have "toLowerCase_char d = CHR ''-''" using d by (simp add: toLowerCase_char_def)
  then have "d = CHR ''-''" by simp
  moreover have "e = e'" using e' e by (rule toLowerCase_char_eq_space)
  ultimately show ?thesis using xs ys1 ys2 assms(3) by simp
qed

lemma replace_dashes_lower_inj:
  "map toLowerCase_char a = map toLowerCase_char b \<Longrightarrow> replace_dashes a = replace_dashes b \<Longrightarrow> a = b"
proof (induction a arbitrary: b rule: length_induct)
  case (1 a)
  show ?case
  proof (cases a)
    case Nil
    then show ?thesis using "1.prems" by simp
  next
    case (Cons c cs)
    with "1.prems"(1) obtain d ds where b: "b = d # ds" and cd: "toLowerCase_char c = toLowerCase_char d"
      and rest: "map toLowerCase_char cs = map toLowerCase_char ds"
      by (cases b) auto
    have "is_space (toLowerCase_char d) = is_space (toLowerCase_char c)" using cd by simp
    then have sp: "is_space d = is_space c" by simp
    have low_dw: "map toLowerCase_char (dropWhile is_space cs) = map toLowerCase_char (dropWhile is_space ds)"
      using lower_equal_spaces [OF rest] by simp
    have "dash_follows (map toLowerCase_char (dropWhile is_space ds)) =
        dash_follows (map toLowerCase_char (dropWhile is_space cs))"
      using low_dw by simp
    then have df: "dash_follows (dropWhile is_space ds) = dash_follows (dropWhile is_space cs)"
      by (simp only: dash_follows_lower)
    have eqs: "replace_dashes (c # cs) = replace_dashes (d # ds)"
      using "1.prems"(2) Cons b by simp
    show ?thesis
    proof (cases "is_space c \<and> dash_follows (dropWhile is_space cs)")
      case True
      let ?sc = "dropWhile is_space (drop 2 (dropWhile is_space cs))"
      let ?sd = "dropWhile is_space (drop 2 (dropWhile is_space ds))"
      have "drop 2 (map toLowerCase_char (dropWhile is_space cs)) =
          drop 2 (map toLowerCase_char (dropWhile is_space ds))"
        using low_dw by simp
      then have low2: "map toLowerCase_char (drop 2 (dropWhile is_space cs)) =
          map toLowerCase_char (drop 2 (dropWhile is_space ds))"
        by (simp only: drop_map)
      have low3: "map toLowerCase_char ?sc = map toLowerCase_char ?sd"
        using lower_equal_spaces [OF low2] by simp
      have "replace_dashes (c # cs) = CHR ''.'' # replace_dashes ?sc"
        using True by (simp add: replace_dashes_Cons del: replace_dashes.simps)
      moreover have "replace_dashes (d # ds) = CHR ''.'' # replace_dashes ?sd"
        using True sp df by (simp add: replace_dashes_Cons del: replace_dashes.simps)
      ultimately have rr: "replace_dashes ?sc = replace_dashes ?sd"
        using eqs by simp
      have len: "length ?sc < length a" using Cons length_skip_less [of cs] by simp
      have "?sc = ?sd"
        using "1.IH" [rule_format, OF len low3 rr] .
      then have "drop 2 (dropWhile is_space cs) = drop 2 (dropWhile is_space ds)"
        using low2 lower_equal_dropWhile_eq by blast
      moreover have "dash_follows (dropWhile is_space cs)" using True by simp
      ultimately have "dropWhile is_space cs = dropWhile is_space ds"
        using low_dw lower_equal_drop2_eq by blast
      then have "cs = ds" using rest lower_equal_dropWhile_eq by blast
      moreover have "c = d" using cd True toLowerCase_char_eq_space by blast
      ultimately show ?thesis using Cons b by simp
    next
      case False
      have "replace_dashes (c # cs) = c # replace_dashes cs"
        using False by (auto simp add: replace_dashes_Cons simp del: replace_dashes.simps)
      moreover have "replace_dashes (d # ds) = d # replace_dashes ds"
        using False sp df by (auto simp add: replace_dashes_Cons simp del: replace_dashes.simps)
      ultimately have "c = d" and rr: "replace_dashes cs = replace_dashes ds"
        using eqs by simp_all
      have len: "length cs < length a" using Cons by simp
      have "cs = ds" using "1.IH" [rule_format, OF len rest rr] .
      then show ?thesis using \<open>c = d\<close> Cons b by simp
    qed
  qed
qed

section \<open>References that differ in letter case\<close>

lemma join_dot_Cons: "ps \<noteq> [] \<Longrightarrow> join_dot (p # ps) = p @ CHR ''.'' # join_dot ps"
  by (cases ps) simp_all

lemma join_dot_split_dot: "join_dot (split_dot s) = s"
proof (induction s)
  case Nil
  show ?case by simp
next
  case (Cons c cs)
  show ?case
  proof (cases "c = CHR ''.''")
    case True
    then show ?thesis using Cons by (simp add: join_dot_Cons)
  next
    case False
    obtain p ps where ps: "split_dot cs = p # ps"
      using split_dot_not_Nil [of cs] by (cases "split_dot cs") auto
    have "join_dot ((c # p) # ps) = c # join_dot (p # ps)"
      by (cases ps) simp_all
    then show ?thesis using False Cons ps by (simp add: extend_first_def)
  qed
qed

lemma split_dot_inj: "split_dot s = split_dot t \<Longrightarrow> s = t"
  by (metis join_dot_split_dot)

lemma number_section_after:
  assumes "number_section st0 a = Inr (st, a')"
  shows "previousRef st = split_dot (replace_dashes (reference a))"
    and "length (split_dot (replace_dashes (reference a))) \<le> length (autoIncrement st)"
    and "previousSection st = Some a'"
proof -
  let ?ref = "split_dot (replace_dashes (reference a))"
  let ?k = "find_incrementIndex (previousRef st0) ?ref 0 0"
  have lt: "?k < length (autoIncrement st0)"
  proof (rule ccontr)
    assume "\<not> ?k < length (autoIncrement st0)"
    then have "number_section st0 a =
        Inl (PluginError ''kss-parser'' (collision_message (previousSection st0) a))"
      by (simp add: number_section_cases Let_def)
    then show False using assms by simp
  qed
  then have st: "st = \<lparr>previousRef = ?ref, previousSection = Some a',
      autoIncrement = take ?k (autoIncrement st0) @ [autoIncrement st0 ! ?k + 1] @
        replicate (length ?ref - (?k + 1)) 1\<rparr>"
    using assms by (auto simp add: number_section_cases Let_def)
  show "previousRef st = ?ref" by (subst st) simp
  show "previousSection st = Some a'" by (subst st) simp
  show "length ?ref \<le> length (autoIncrement st)"
    using lt by (subst st) simp
qed

lemma likeKssNode_same_chunks:
  assumes "split_chunks (toLowerCase (reference a)) = split_chunks (toLowerCase (reference b))"
    and "[] \<notin> set (split_chunks (toLowerCase (reference a)))"
  shows "likeKssNode wm a b = Num 0"
proof -
  let ?refs = "split_chunks (toLowerCase (reference a))"
  have "likeKssNode wm a b = likeKssNode_from wm a b ?refs ?refs 0 (length ?refs)"
    using assms(1) by (simp add: likeKssNode_def Let_def)
  also have "\<dots> = likeKssNode_from wm a b ?refs ?refs (length ?refs) (length ?refs)"
    using assms(2) by (intro likeKssNode_from_skip) auto
  also have "\<dots> = Num 0"
    by (subst likeKssNode_from.simps) simp
  finally show ?thesis .
qed

text \<open>
  C10, amended. Two sections whose references differ only in letter case, the second
  numbered right after the first. The comparator lower-cases both references and returns
  0 (when no piece between the separators is empty). The numbering compares the pieces
  as written: the two paths have the same length and first differ at some depth \<open>k\<close>,
  which is depth 0 only when the first pieces differ; the second section is numbered
  without a collision error and the counter at depth \<open>k\<close> is incremented.
\<close>

theorem case_variants_numbered_apart:
  assumes "toLowerCase (reference a) = toLowerCase (reference b)"
    and "reference a \<noteq> reference b"
    and "number_section st0 a = Inr (st, a')"
  shows "([] \<notin> set (split_chunks (toLowerCase (reference a))) \<longrightarrow> likeKssNode wm a b = Num 0)
    \<and> (\<exists>k st' b'.
          k = find_incrementIndex (previousRef st) (split_dot (replace_dashes (reference b))) 0 0
        \<and> previousRef st = split_dot (replace_dashes (reference a))
        \<and> k < length (previousRef st)
        \<and> k < length (split_dot (replace_dashes (reference b)))
        \<and> take k (previousRef st) = take k (split_dot (replace_dashes (reference b)))
        \<and> previousRef st ! k \<noteq> split_dot (replace_dashes (reference b)) ! k
        \<and> number_section st b = Inr (st', b')
        \<and> autoIncrement st' =
            take k (autoIncrement st) @ [autoIncrement st ! k + 1] @
            replicate (length (split_dot (replace_dashes (reference b))) - (k + 1)) 1)"
proof -
  let ?ra = "split_dot (replace_dashes (reference a))"
  let ?rb = "split_dot (replace_dashes (reference b))"
  let ?k = "find_incrementIndex ?ra ?rb 0 0"
  have cmp: "[] \<notin> set (split_chunks (toLowerCase (reference a))) \<longrightarrow> likeKssNode wm a b = Num 0"
    using assms(1) likeKssNode_same_chunks [of a b wm] by simp
  have prev: "previousRef st = ?ra" and len_auto: "length ?ra \<le> length (autoIncrement st)"
    using number_section_after [OF assms(3)] by simp_all
  have "split_dot (replace_dashes (toLowerCase (reference a))) =
      split_dot (replace_dashes (toLowerCase (reference b)))"
    using assms(1) by simp
  then have low: "map toLowerCase ?ra = map toLowerCase ?rb"
    by (simp add: replace_dashes_toLowerCase split_dot_toLowerCase)
  then have len: "length ?ra = length ?rb" by (rule map_eq_imp_length_eq)
  have "replace_dashes (reference a) \<noteq> replace_dashes (reference b)"
    using assms(1,2) replace_dashes_lower_inj [of "reference a" "reference b"]
    by (auto simp: toLowerCase_def)
  then have ne: "?ra \<noteq> ?rb" using split_dot_inj by blast
  have k1: "?k \<le> length ?ra" and k2: "take ?k ?ra = take ?k ?rb"
    and k3: "?k < length ?ra \<Longrightarrow> ?k < length ?rb \<Longrightarrow> ?ra ! ?k \<noteq> ?rb ! ?k"
    using incrementIndex_props [of ?ra ?rb] by simp_all
  have klt: "?k < length ?ra"
  proof (rule ccontr)
    assume "\<not> ?k < length ?ra"
    then have "?k = length ?ra" using k1 by simp
    then have "?ra = ?rb" using k2 len by simp
    then show False using ne by simp
  qed
  then have kdiff: "?ra ! ?k \<noteq> ?rb ! ?k" using k3 len by simp
  have kauto: "?k < length (autoIncrement st)" using klt len_auto by simp
  obtain st' b' where step: "number_section st b = Inr (st', b')"
    and auto': "autoIncrement st' =
        take ?k (autoIncrement st) @ [autoIncrement st ! ?k + 1] @ replicate (length ?rb - (?k + 1)) 1"
    using kauto prev by (simp add: number_section_cases Let_def)
  show ?thesis
    using cmp prev klt len k2 kdiff step auto' by auto
qed

text \<open>"Forms" and "FORMS": depth 0, the references 1 and 2.\<close>

theorem case_variants_numbered_apart_witness:
  "toLowerCase ''Forms'' = toLowerCase ''FORMS''
   \<and> likeKssNode (initWeightMap [plain_section ''First'' ''Forms'' 0, plain_section ''Second'' ''FORMS'' 0])
        (plain_section ''First'' ''Forms'' 0) (plain_section ''Second'' ''FORMS'' 0) = Num 0
   \<and> find_incrementIndex (split_dot (replace_dashes ''Forms'')) (split_dot (replace_dashes ''FORMS'')) 0 0 = 0
   \<and> sortedSections [plain_section ''First'' ''Forms'' 0, plain_section ''Second'' ''FORMS'' 0]
      = Inr [(plain_section ''First'' ''Forms'' 0)\<lparr>stringReference := Some ''Forms'', reference := ''1''\<rparr>,
             (plain_section ''Second'' ''FORMS'' 0)\<lparr>stringReference := Some ''FORMS'', reference := ''2''\<rparr>]"
proof -
  let ?a = "plain_section ''First'' ''Forms'' 0"
  let ?b = "plain_section ''Second'' ''FORMS'' 0"
  let ?a' = "?a\<lparr>stringReference := Some ''Forms'', reference := ''1''\<rparr>"
  let ?st = "\<lparr>previousRef = [''Forms''], previousSection = Some ?a', autoIncrement = [1]\<rparr>"
  have h1: "toLowerCase (reference ?a) = toLowerCase (reference ?b)"
    by (simp add: string_eval plain_section_def)
  have h2: "reference ?a \<noteq> reference ?b"
    by (simp add: plain_section_def)
  have h3: "number_section initial_numbering ?a = Inr (?st, ?a')"
    by (simp add: string_eval sorter_eval)
  have res: "sortedSections [?a, ?b]
      = Inr [?a', ?b\<lparr>stringReference := Some ''FORMS'', reference := ''2''\<rparr>]"
    by (simp add: string_eval sorter_eval)
  have k: "find_incrementIndex (split_dot (replace_dashes ''Forms'')) (split_dot (replace_dashes ''FORMS'')) 0 0 = 0"
    by (simp add: string_eval sorter_eval)
  have c: "[] \<notin> set (split_chunks (toLowerCase (reference ?a)))"
    by (simp add: string_eval plain_section_def)
  have "likeKssNode (initWeightMap [?a, ?b]) ?a ?b = Num 0"
    using case_variants_numbered_apart [OF h1 h2 h3, of "initWeightMap [?a, ?b]"] c by blast
  then show ?thesis using h1 res k by (simp add: plain_section_def)
qed

text \<open>"a.Forms" and "a.FORMS" differ only in letter case and the paths differ at depth 1:
  the top-level counter stays 1, the references are 1.1 and 1.2.\<close>

theorem case_variants_below_top_level:
  "toLowerCase ''a.Forms'' = toLowerCase ''a.FORMS''
   \<and> likeKssNode (initWeightMap [plain_section ''First'' ''a.Forms'' 0, plain_section ''Second'' ''a.FORMS'' 0])
        (plain_section ''First'' ''a.Forms'' 0) (plain_section ''Second'' ''a.FORMS'' 0) = Num 0
   \<and> find_incrementIndex (split_dot (replace_dashes ''a.Forms'')) (split_dot (replace_dashes ''a.FORMS'')) 0 0 = 1
   \<and> sortedSections [plain_section ''First'' ''a.Forms'' 0, plain_section ''Second'' ''a.FORMS'' 0]
      = Inr [(plain_section ''First'' ''a.Forms'' 0)\<lparr>stringReference := Some ''a.Forms'', reference := ''1.1''\<rparr>,
             (plain_section ''Second'' ''a.FORMS'' 0)\<lparr>stringReference := Some ''a.FORMS'', reference := ''1.2''\<rparr>]"
  by (simp add: string_eval sorter_eval)

section \<open>Two sections with the reference 3.1\<close>

lemma number_sections_previousRef:
  "number_sections st0 xs = Inr (st, out) \<Longrightarrow> xs \<noteq> [] \<Longrightarrow>
   previousRef st = split_dot (replace_dashes (reference (last xs)))"
proof (induction xs arbitrary: st0 out)
  case Nil
  then show ?case by simp
next
  case (Cons x xs)
  from Cons.prems(1) obtain st1 x' out' where
    one: "number_section st0 x = Inr (st1, x')" and rest: "number_sections st1 xs = Inr (st, out')"
    by (auto split: sum.splits prod.splits)
  show ?case
  proof (cases "xs = []")
    case True
    then have "st = st1" using rest by simp
    then show ?thesis using number_section_after(1) [OF one] True by simp
  next
    case False
    then show ?thesis using Cons.IH [OF rest False] by simp
  qed
qed

text \<open>
  C4 as claimed does not hold for every collection that contains two sections declaring
  "3.1". The comparator returns 0 for "3.1" against "3.01" (the chunks 1 and 01 are the
  same number), so a stable sort leaves a section "3.01" between the two where the input
  has it. The numbering compares each path with the path just before it only: "3.01"
  leaves the path of the first "3.1" at depth 1 and increments the counter the first
  "3.1" opened there, and the second "3.1" does the same after "3.01". The
  auto-increment has two counters all along, no section opens a deeper one, and all
  three sections are returned, two of them with the reference "3.1". No error is raised.
\<close>

theorem same_reference_apart_no_collision:
  "likeKssNode (initWeightMap [plain_section ''First'' ''3.1'' 0, plain_section ''Other'' ''3.01'' 0,
        plain_section ''Second'' ''3.1'' 0])
     (plain_section ''First'' ''3.1'' 0) (plain_section ''Other'' ''3.01'' 0) = Num 0
   \<and> likeKssNode (initWeightMap [plain_section ''First'' ''3.1'' 0, plain_section ''Other'' ''3.01'' 0,
        plain_section ''Second'' ''3.1'' 0])
     (plain_section ''Other'' ''3.01'' 0) (plain_section ''Second'' ''3.1'' 0) = Num 0
   \<and> array_sort (likeKssNode (initWeightMap [plain_section ''First'' ''3.1'' 0,
        plain_section ''Other'' ''3.01'' 0, plain_section ''Second'' ''3.1'' 0]))
       [plain_section ''First'' ''3.1'' 0, plain_section ''Other'' ''3.01'' 0,
        plain_section ''Second'' ''3.1'' 0]
     = [plain_section ''First'' ''3.1'' 0, plain_section ''Other'' ''3.01'' 0,
        plain_section ''Second'' ''3.1'' 0]
   \<and> number_sections initial_numbering [plain_section ''First'' ''3.1'' 0]
     = Inr (\<lparr>previousRef = [''3'', ''1''], previousSection = Some (plain_section ''First'' ''3.1'' 0),
               autoIncrement = [1, 1]\<rparr>,
            [plain_section ''First'' ''3.1'' 0])
   \<and> number_sections initial_numbering
       [plain_section ''First'' ''3.1'' 0, plain_section ''Other'' ''3.01'' 0]
     = Inr (\<lparr>previousRef = [''3'', ''01''], previousSection = Some (plain_section ''Other'' ''3.01'' 0),
               autoIncrement = [1, 2]\<rparr>,
            [plain_section ''First'' ''3.1'' 0, plain_section ''Other'' ''3.01'' 0])
   \<and> sortedSections [plain_section ''First'' ''3.1'' 0, plain_section ''Other'' ''3.01'' 0,
        plain_section ''Second'' ''3.1'' 0]
     = Inr [plain_section ''First'' ''3.1'' 0, plain_section ''Other'' ''3.01'' 0,
        plain_section ''Second'' ''3.1'' 0]"
  by (simp add: string_eval sorter_eval)

text \<open>
  C4, amended. Take any collection in whose sorted order two sections \<open>a\<close> and \<open>b\<close> that
  both declare "3.1" stand next to each other, \<open>pre\<close> being the sections sorted before
  them. If the numbering of \<open>pre\<close> and of \<open>a\<close> throws nothing, and the last section of
  \<open>pre\<close>, if there is one, has a chunk path that does not begin with 3, 1 (such a path
  would leave a counter open below depth 2), then the numbering of \<open>b\<close> throws the plugin
  error whose message holds the shared reference and the headers of \<open>a\<close> and \<open>b\<close>. The
  result is the error, no collection. In the proof the path of \<open>a\<close> leaves the path
  before it at depth 0 or 1, so after \<open>a\<close> the auto-increment has exactly two counters;
  the path of \<open>b\<close> is the path of \<open>a\<close>, the increment index is 2, and no counter is there.
\<close>

theorem same_reference_collision:
  assumes "array_sort (likeKssNode (initWeightMap secs)) secs = pre @ a # b # post"
    and "reference a = ''3.1''" and "reference b = ''3.1''"
    and "number_sections initial_numbering (pre @ [a]) = Inr (st, out)"
    and "pre = [] \<or> take 2 (split_dot (replace_dashes (reference (last pre)))) \<noteq> [''3'', ''1'']"
  shows "sortedSections secs =
     Inl (PluginError ''kss-parser''
       (''Two sections defined with same reference 3.1: '' @ quote (header a) @ '' and '' @
        quote (header b)))"
proof -
  have ref: "split_dot (replace_dashes ''3.1'') = [''3'', ''1'']"
    by (simp add: string_eval)
  have num: "numeric_reference ''3.1''"
    by (simp add: string_eval)
  from assms(4) obtain st0 pre' a' where
    p: "number_sections initial_numbering pre = Inr (st0, pre')" and
    s: "number_section st0 a = Inr (st, a')"
    by (auto simp add: number_sections_append split: sum.splits prod.splits)
  have prev0: "take 2 (previousRef st0) \<noteq> [''3'', ''1'']"
  proof (cases "pre = []")
    case True
    then have "st0 = initial_numbering" using p by simp
    then show ?thesis by (simp add: initial_numbering_def)
  next
    case False
    then show ?thesis using number_sections_previousRef [OF p False] assms(5) by simp
  qed
  let ?k = "find_incrementIndex (previousRef st0) [''3'', ''1''] 0 0"
  have k2: "?k \<le> 2"
    using incrementIndex_props(2) [of "previousRef st0" "[''3'', ''1'']"] by simp
  have kt: "take ?k (previousRef st0) = take ?k [''3'', ''1'']"
    using incrementIndex_props(3) [of "previousRef st0" "[''3'', ''1'']"] by simp
  have "?k \<noteq> 2"
  proof
    assume "?k = 2"
    then have "take 2 (previousRef st0) = take 2 [''3'', ''1'']" using kt by simp
    then show False using prev0 by simp
  qed
  then have k1: "?k \<le> 1" using k2 by simp
  have klt: "?k < length (autoIncrement st0)"
  proof (rule ccontr)
    assume "\<not> ?k < length (autoIncrement st0)"
    then have "number_section st0 a =
        Inl (PluginError ''kss-parser'' (collision_message (previousSection st0) a))"
      using ref assms(2) by (simp add: number_section_cases Let_def)
    then show False using s by simp
  qed
  have st: "st = \<lparr>previousRef = [''3'', ''1''], previousSection = Some a,
      autoIncrement = take ?k (autoIncrement st0) @ [autoIncrement st0 ! ?k + 1] @
        replicate (2 - (?k + 1)) 1\<rparr>"
    using s klt ref num assms(2) by (auto simp add: number_section_cases Let_def renumber_def)
  have pr: "previousRef st = [''3'', ''1'']" and ps: "previousSection st = Some a"
    by (subst st, simp)+
  have len: "length (autoIncrement st) = 2"
    using k1 klt by (subst st) simp
  have "take (length (previousRef st)) (split_dot (replace_dashes (reference b))) = previousRef st"
    using pr ref assms(3) by simp
  moreover have "length (autoIncrement st) \<le> length (previousRef st)"
    using pr len by simp
  ultimately have thr: "number_section st b =
      Inl (PluginError ''kss-parser'' (collision_message (Some a) b))"
    using number_section_prefix_throws [of st b] ps by simp
  have "number_sections initial_numbering ((pre @ [a]) @ b # post) =
      Inl (PluginError ''kss-parser'' (collision_message (Some a) b))"
    by (subst number_sections_append) (simp add: assms(4) thr)
  then have all: "number_sections initial_numbering (pre @ a # b # post) =
      Inl (PluginError ''kss-parser'' (collision_message (Some a) b))"
    by simp
  have msg: "collision_message (Some a) b =
      ''Two sections defined with same reference 3.1: '' @ quote (header a) @ '' and '' @ quote (header b)"
    using assms(2) by (simp add: collision_message_def)
  show ?thesis
    using assms(1) all msg
    by (simp add: sortedSections_def KssNodeSorter_sort_def convertKssReferenceString2Number_def
        new_KssNodeSorter_def)
qed

text \<open>The collection "3.1", "1", "3.1": the sort moves "1" to the front, the numbering
  gives it the counter 1 and the first "3.1" the counters 2, 1, and the second "3.1"
  throws.\<close>

theorem same_reference_collision_witness:
  "array_sort (likeKssNode (initWeightMap [plain_section ''First'' ''3.1'' 0, plain_section ''One'' ''1'' 0,
        plain_section ''Second'' ''3.1'' 0]))
       [plain_section ''First'' ''3.1'' 0, plain_section ''One'' ''1'' 0,
        plain_section ''Second'' ''3.1'' 0]
     = [plain_section ''One'' ''1'' 0, plain_section ''First'' ''3.1'' 0,
        plain_section ''Second'' ''3.1'' 0]
   \<and> number_sections initial_numbering [plain_section ''One'' ''1'' 0, plain_section ''First'' ''3.1'' 0]
     = Inr (\<lparr>previousRef = [''3'', ''1''], previousSection = Some (plain_section ''First'' ''3.1'' 0),
               autoIncrement = [2, 1]\<rparr>,
            [plain_section ''One'' ''1'' 0, plain_section ''First'' ''3.1'' 0])
   \<and> take 2 (split_dot (replace_dashes ''1'')) \<noteq> [''3'', ''1'']
   \<and> sortedSections [plain_section ''First'' ''3.1'' 0, plain_section ''One'' ''1'' 0,
        plain_section ''Second'' ''3.1'' 0] =
     Inl (PluginError ''kss-parser''
       (''Two sections defined with same reference 3.1: '' @ quote ''First'' @ '' and '' @
        quote ''Second''))"
proof -
  let ?a = "plain_section ''First'' ''3.1'' 0"
  let ?o = "plain_section ''One'' ''1'' 0"
  let ?b = "plain_section ''Second'' ''3.1'' 0"
  let ?st = "\<lparr>previousRef = [''3'', ''1''], previousSection = Some ?a, autoIncrement = [2, 1]\<rparr>"
  have h1: "array_sort (likeKssNode (initWeightMap [?a, ?o, ?b])) [?a, ?o, ?b] = [?o] @ ?a # ?b # []"
    by (simp add: string_eval sorter_eval)
  have h2: "reference ?a = ''3.1''" and h3: "reference ?b = ''3.1''"
    by (simp_all add: plain_section_def)
  have h4: "number_sections initial_numbering ([?o] @ [?a]) = Inr (?st, [?o, ?a])"
    by (simp add: string_eval sorter_eval)
  have h5: "take 2 (split_dot (replace_dashes ''1'')) \<noteq> [''3'', ''1'']"
    by (simp add: string_eval)
  then have h5': "[?o] = [] \<or> take 2 (split_dot (replace_dashes (reference (last [?o])))) \<noteq> [''3'', ''1'']"
    by (simp add: plain_section_def)
  have "sortedSections [?a, ?o, ?b] =
     Inl (PluginError ''kss-parser''
       (''Two sections defined with same reference 3.1: '' @ quote (header ?a) @ '' and '' @
        quote (header ?b)))"
    using same_reference_collision [OF h1 h2 h3 h4 h5'] .
  then have res: "sortedSections [?a, ?o, ?b] =
     Inl (PluginError ''kss-parser''
       (''Two sections defined with same reference 3.1: '' @ quote ''First'' @ '' and '' @
        quote ''Second''))"
    by (simp add: plain_section_def)
  show ?thesis
    using h1 h4 h5 res by simp
qed

text \<open>
  Why the two conditions on the sections sorted before the pair are there. After a
  section "3.1." the auto-increment has three counters, and the two sections "3.1"
  that follow it are both numbered. After a section "3" the auto-increment has one
  counter, and the first "3.1" already throws, with the header of "3" in the message.
\<close>

lemma deeper_counter_no_collision:
  "convertKssReferenceString2Number
     [plain_section ''Dot'' ''3.1.'' 0, plain_section ''First'' ''3.1'' 0,
      plain_section ''Second'' ''3.1'' 0]
   = Inr [plain_section ''Dot'' ''3.1.'' 0, plain_section ''First'' ''3.1'' 0,
      plain_section ''Second'' ''3.1'' 0]"
  by (simp add: string_eval sorter_eval)

lemma parent_before_pair_throws_first:
  "convertKssReferenceString2Number
     [plain_section ''Three'' ''3'' 0, plain_section ''First'' ''3.1'' 0,
      plain_section ''Second'' ''3.1'' 0]
   = Inl (PluginError ''kss-parser''
       (''Two sections defined with same reference 3: '' @ quote ''Three'' @ '' and '' @
        quote ''First''))"
  by (simp add: string_eval sorter_eval)

section \<open>Blocks with several sections\<close>




section \<open>A block that fails to parse\<close>

text \<open>
  C5. Two files, one block each; the parser fails on the block of the first file. The
  promise of the block is rejected, the error is written to the console, and the promise
  of the file is never settled, so the promise of \<^verbatim>\<open>parseKssSections\<close> is never settled
  either: it is not rejected with the error of the block. No section is returned.
\<close>

theorem block_error_leaves_promise_pending:
  "parseKssSections (example_externals failing_parser) [(''a.css'', ''bad''), (''b.css'', ''good'')]
   = ([ConsoleError ''  error processing kss block'' (ParserError ''bad block'')], Pending)
   \<and> processFile (example_externals failing_parser) ''bad'' ''a.css'' ''css''
   = ([ConsoleError ''  error processing kss block'' (ParserError ''bad block'')], Pending)
   \<and> snd (processBlock (example_externals failing_parser) \<lparr>blk_kss = ''bad'', blk_code = None\<rparr>)
   = Rejected (ParserError ''bad block'')"
  by (simp add: pipeline_eval plain_section_def Let_def)

text \<open>In general: a block that fails to parse leaves the promise of its file pending,
  and the pipeline is never fulfilled.\<close>

lemma processBlock_parse_error:
  "parse ext (blk_kss blk) = Inl err \<Longrightarrow>
   processBlock ext blk = ([ConsoleError ''  error processing kss block'' err], Rejected err)"
  by (simp add: processBlock_def)

lemma first_rejection_mem: "Rejected e \<in> set ps \<Longrightarrow> first_rejection ps \<noteq> None"
proof (induction ps)
  case Nil
  then show ?case by simp
next
  case (Cons p ps)
  then show ?case by (cases p) auto
qed

lemma fulfilled_values_Pending: "Pending \<in> set ps \<Longrightarrow> fulfilled_values ps = None"
proof (induction ps)
  case Nil
  then show ?case by simp
next
  case (Cons p ps)
  then show ?case by (cases p) auto
qed

lemma Q_all_rejected_member: "Rejected e \<in> set ps \<Longrightarrow> \<exists>e'. Q_all ps = Rejected e'"
  using first_rejection_mem [of e ps] by (auto simp: Q_all_def split: option.splits)

lemma Q_all_pending_member: "Pending \<in> set ps \<Longrightarrow> Q_all ps \<noteq> Fulfilled vs"
  using fulfilled_values_Pending [of ps] by (auto simp: Q_all_def split: option.splits)

lemma processFile_block_error:
  assumes "contents \<noteq> []" and "getBlocks ext contents syn = Inr blocks"
    and "blk \<in> set blocks" and "parse ext (blk_kss blk) = Inl err"
  shows "snd (processFile ext contents filePath syn) = Pending"
proof -
  have "Rejected err \<in> set (map snd (map (processBlock ext) blocks))"
    using assms(3) processBlock_parse_error [OF assms(4)] by force
  then obtain e' where "Q_all (map snd (map (processBlock ext) blocks)) = Rejected e'"
    using Q_all_rejected_member by blast
  then show ?thesis using assms(1,2) by (simp add: processFile_def Let_def)
qed

lemma parseKssSections_block_error:
  assumes "(filePath, contents) \<in> set files" and "contents \<noteq> []"
    and "getBlocks ext contents (drop 1 (extname ext filePath)) = Inr blocks"
    and "blk \<in> set blocks" and "parse ext (blk_kss blk) = Inl err"
  shows "snd (parseKssSections ext files) \<noteq> Fulfilled secs"
proof -
  let ?outcomes = "map (\<lambda>(filePath, contents).
      processFile ext contents filePath (drop 1 (extname ext filePath))) files"
  have "snd (processFile ext contents filePath (drop 1 (extname ext filePath))) = Pending"
    using assms(2-5) by (rule processFile_block_error)
  then have "Pending \<in> set (map snd ?outcomes)"
    using assms(1) by force
  then have "\<And>vs. Q_all (map snd ?outcomes) \<noteq> Fulfilled vs"
    by (rule Q_all_pending_member)
  then show ?thesis
    by (cases "Q_all (map snd ?outcomes)") (simp_all add: parseKssSections_def Let_def)
qed

section \<open>Numbers and their text\<close>

lemma digit_char_props:
  assumes "d < 10"
  shows "digit_value (digit_char d) = d" and "digit_char d \<noteq> CHR ''.''"
proof -
  have "(of_char (digit_char d) :: nat) = 48 + d"
    using assms by (simp add: digit_char_def)
  then show "digit_value (digit_char d) = d" by (simp add: digit_value_def)
  have "(of_char (digit_char d) :: nat) \<noteq> of_char CHR ''.''"
    using \<open>(of_char (digit_char d) :: nat) = 48 + d\<close> by simp
  then show "digit_char d \<noteq> CHR ''.''" by auto
qed

lemma decimal_not_Nil: "decimal n \<noteq> []"
  by (subst decimal.simps) simp

lemma decimal_no_dot: "CHR ''.'' \<notin> set (decimal n)"
proof (induction n rule: decimal.induct)
  case (1 n)
  show ?case
  proof (cases "n < 10")
    case True
    then show ?thesis using digit_char_props(2) [of n] by (subst decimal.simps) auto
  next
    case False
    have "n mod 10 < 10" by simp
    then have "digit_char (n mod 10) \<noteq> CHR ''.''" by (rule digit_char_props(2))
    then show ?thesis using False 1 by (subst decimal.simps) auto
  qed
qed

lemma digits_value_snoc: "digits_value (s @ [c]) = 10 * digits_value s + digit_value c"
  by (simp add: digits_value_def)

lemma digits_value_decimal: "digits_value (decimal n) = n"
proof (induction n rule: decimal.induct)
  case (1 n)
  show ?case
  proof (cases "n < 10")
    case True
    then show ?thesis
      using digit_char_props(1) [of n] by (subst decimal.simps) (simp add: digits_value_def)
  next
    case False
    have "digit_value (digit_char (n mod 10)) = n mod 10"
      by (rule digit_char_props(1)) simp
    then show ?thesis
      using False 1 by (subst decimal.simps) (simp add: digits_value_snoc)
  qed
qed

lemma split_dot_no_dot: "CHR ''.'' \<notin> set x \<Longrightarrow> split_dot x = [x]"
  by (induction x) (auto simp: extend_first_def)

lemma split_dot_append_dot:
  "CHR ''.'' \<notin> set x \<Longrightarrow> split_dot (x @ CHR ''.'' # rest) = x # split_dot rest"
  by (induction x) (auto simp: extend_first_def)



lemma split_dot_join_dot:
  "cs \<noteq> [] \<Longrightarrow> \<forall>c\<in>set cs. CHR ''.'' \<notin> set c \<Longrightarrow> split_dot (join_dot cs) = cs"
proof (induction cs rule: join_dot.induct)
  case 1
  then show ?case by simp
next
  case (2 x)
  then have "CHR ''.'' \<notin> set x" by simp
  then show ?case by (simp add: split_dot_no_dot)
next
  case (3 x y ys)
  have x: "CHR ''.'' \<notin> set x" using "3.prems"(2) by simp
  have "\<forall>c\<in>set (y # ys). CHR ''.'' \<notin> set c" using "3.prems"(2) by simp
  then have ih: "split_dot (join_dot (y # ys)) = y # ys" using "3.IH" by blast
  have "split_dot (join_dot (x # y # ys)) = split_dot (x @ CHR ''.'' # join_dot (y # ys))"
    by simp
  also have "\<dots> = x # split_dot (join_dot (y # ys))"
    using x by (rule split_dot_append_dot)
  finally show ?case using ih by simp
qed

lemma path_of_reference:
  assumes "ns \<noteq> []"
  shows "map digits_value (split_dot (join_dot (map decimal ns))) = ns"
proof -
  have "map decimal ns \<noteq> []" using assms by simp
  moreover have "\<forall>c\<in>set (map decimal ns). CHR ''.'' \<notin> set c"
    using decimal_no_dot by auto
  ultimately have "split_dot (join_dot (map decimal ns)) = map decimal ns"
    by (rule split_dot_join_dot)
  moreover have "map digits_value (map decimal ns) = ns"
    by (induction ns) (simp_all add: digits_value_decimal)
  ultimately show ?thesis by simp
qed

lemma join_decimal_inj:
  assumes "join_dot (map decimal p) = join_dot (map decimal q)" and "p \<noteq> []" and "q \<noteq> []"
  shows "p = q"
proof -
  have "p = map digits_value (split_dot (join_dot (map decimal p)))"
    using path_of_reference [OF assms(2)] by (rule sym)
  also have "\<dots> = map digits_value (split_dot (join_dot (map decimal q)))"
    by (simp only: assms(1))
  also have "\<dots> = q" using assms(3) by (rule path_of_reference)
  finally show ?thesis .
qed

section \<open>The auto-increment grows\<close>

lemma lex_append_less: "ys < zs \<Longrightarrow> ps @ ys < ps @ (zs :: nat list)"
  by (induction ps) auto

lemma number_section_path_grows:
  assumes "number_section st sec = Inr (st', sec')"
  shows "autoIncrement st < autoIncrement st'"
proof -
  let ?ref = "split_dot (replace_dashes (reference sec))"
  let ?k = "find_incrementIndex (previousRef st) ?ref 0 0"
  let ?auto = "autoIncrement st"
  have lt: "?k < length ?auto"
  proof (rule ccontr)
    assume "\<not> ?k < length ?auto"
    then show False using assms by (simp add: number_section_cases Let_def)
  qed
  then have new: "autoIncrement st' =
      take ?k ?auto @ [?auto ! ?k + 1] @ replicate (length ?ref - (?k + 1)) 1"
    using assms by (auto simp add: number_section_cases Let_def)
  have old: "take ?k ?auto @ ?auto ! ?k # drop (Suc ?k) ?auto = ?auto"
    using lt by (rule id_take_nth_drop [symmetric])
  have "?auto ! ?k # drop (Suc ?k) ?auto <
      [?auto ! ?k + 1] @ replicate (length ?ref - (?k + 1)) 1"
    by simp
  then have "take ?k ?auto @ ?auto ! ?k # drop (Suc ?k) ?auto <
      take ?k ?auto @ [?auto ! ?k + 1] @ replicate (length ?ref - (?k + 1)) 1"
    by (rule lex_append_less)
  then show ?thesis using old new by simp
qed

lemma number_section_path_positive:
  assumes "number_section st sec = Inr (st', sec')" and "previousRef st = [] \<or> 0 \<notin> set (autoIncrement st)"
  shows "0 \<notin> set (autoIncrement st')" and "autoIncrement st' \<noteq> []" and "previousRef st' \<noteq> []"
proof -
  let ?ref = "split_dot (replace_dashes (reference sec))"
  let ?k = "find_incrementIndex (previousRef st) ?ref 0 0"
  let ?auto = "autoIncrement st"
  have lt: "?k < length ?auto"
  proof (rule ccontr)
    assume "\<not> ?k < length ?auto"
    then show False using assms(1) by (simp add: number_section_cases Let_def)
  qed
  then have new: "autoIncrement st' =
      take ?k ?auto @ [?auto ! ?k + 1] @ replicate (length ?ref - (?k + 1)) 1"
    and prev: "previousRef st' = ?ref"
    using assms(1) by (auto simp add: number_section_cases Let_def)
  show "autoIncrement st' \<noteq> []" using new by simp
  show "previousRef st' \<noteq> []" using prev split_dot_not_Nil by simp
  have "0 \<notin> set (take ?k ?auto)"
  proof (cases "previousRef st = []")
    case True
    then have "?k = 0" using incrementIndex_props(1) [of "previousRef st" ?ref] by simp
    then show ?thesis by simp
  next
    case False
    then have "0 \<notin> set ?auto" using assms(2) by simp
    then show ?thesis by (meson in_set_takeD)
  qed
  then show "0 \<notin> set (autoIncrement st')" using new by auto
qed

lemma number_section_renumbers:
  assumes "number_section st sec = Inr (st', sec')"
  shows "sec' = renumber (autoIncrement st') sec"
proof -
  let ?ref = "split_dot (replace_dashes (reference sec))"
  let ?k = "find_incrementIndex (previousRef st) ?ref 0 0"
  have "?k < length (autoIncrement st)"
  proof (rule ccontr)
    assume "\<not> ?k < length (autoIncrement st)"
    then show False using assms by (simp add: number_section_cases Let_def)
  qed
  then show ?thesis using assms by (auto simp add: number_section_cases Let_def)
qed

lemma number_sections_paths:
  assumes "number_sections st xs = Inr (st', out)"
    and "previousRef st = [] \<or> 0 \<notin> set (autoIncrement st)"
  shows "\<exists>paths. length paths = length xs
    \<and> sorted_wrt (<) (autoIncrement st # paths)
    \<and> (\<forall>p\<in>set paths. p \<noteq> [] \<and> 0 \<notin> set p)
    \<and> out = map2 renumber paths xs"
  using assms
proof (induction xs arbitrary: st out)
  case Nil
  then show ?case by simp
next
  case (Cons x xs)
  from Cons.prems(1) obtain st1 x' out' where
    step: "number_section st x = Inr (st1, x')"
    and rest: "number_sections st1 xs = Inr (st', out')"
    and out: "out = x' # out'"
    by (auto split: sum.splits prod.splits)
  have pos1: "0 \<notin> set (autoIncrement st1)" and ne1: "autoIncrement st1 \<noteq> []"
    using number_section_path_positive [OF step Cons.prems(2)] by simp_all
  have grow: "autoIncrement st < autoIncrement st1"
    using step by (rule number_section_path_grows)
  have x': "x' = renumber (autoIncrement st1) x"
    using step by (rule number_section_renumbers)
  from Cons.IH [OF rest] pos1 obtain paths where
    len: "length paths = length xs"
    and srt: "sorted_wrt (<) (autoIncrement st1 # paths)"
    and ok: "\<forall>p\<in>set paths. p \<noteq> [] \<and> 0 \<notin> set p"
    and out': "out' = map2 renumber paths xs"
    by blast
  have "\<forall>p\<in>set paths. autoIncrement st < p"
    using srt grow by (auto intro: less_trans)
  then have "sorted_wrt (<) (autoIncrement st # autoIncrement st1 # paths)"
    using srt grow by simp
  moreover have "length (autoIncrement st1 # paths) = length (x # xs)" using len by simp
  moreover have "\<forall>p\<in>set (autoIncrement st1 # paths). p \<noteq> [] \<and> 0 \<notin> set p"
    using ok pos1 ne1 by simp
  moreover have "out = map2 renumber (autoIncrement st1 # paths) (x # xs)"
    using out x' out' by simp
  ultimately show ?case by blast
qed

lemma sorted_wrt_less_distinct: "sorted_wrt (<) (ps :: nat list list) \<Longrightarrow> distinct ps"
  by (induction ps) auto

text \<open>
  C2, amended. When the resolution of a collection succeeds, the output is the sorted
  collection, section by section: a section whose reference was made of digits, dots and
  dashes only is unchanged; each other section has for reference a dot-joined chain of
  positive integers, and the references of these renumbered sections are pairwise
  distinct.
\<close>

theorem rewritten_references_distinct:
  assumes "sortedSections secs = Inr out"
  shows "length out = length (array_sort (likeKssNode (initWeightMap secs)) secs)
    \<and> (\<forall>i<length out.
          numeric_reference (reference (array_sort (likeKssNode (initWeightMap secs)) secs ! i)) \<longrightarrow>
          out ! i = array_sort (likeKssNode (initWeightMap secs)) secs ! i)
    \<and> (\<forall>i<length out.
          \<not> numeric_reference (reference (array_sort (likeKssNode (initWeightMap secs)) secs ! i)) \<longrightarrow>
          (\<exists>ns. ns \<noteq> [] \<and> (\<forall>n\<in>set ns. 0 < n) \<and> reference (out ! i) = join_dot (map decimal ns)))
    \<and> (\<forall>i<length out. \<forall>j<length out. i \<noteq> j \<longrightarrow>
          \<not> numeric_reference (reference (array_sort (likeKssNode (initWeightMap secs)) secs ! i)) \<longrightarrow>
          \<not> numeric_reference (reference (array_sort (likeKssNode (initWeightMap secs)) secs ! j)) \<longrightarrow>
          reference (out ! i) \<noteq> reference (out ! j))"
proof -
  let ?srt = "array_sort (likeKssNode (initWeightMap secs)) secs"
  from assms obtain st' where run: "number_sections initial_numbering ?srt = Inr (st', out)"
    by (auto simp: sortedSections_def KssNodeSorter_sort_def new_KssNodeSorter_def
        convertKssReferenceString2Number_def split: sum.splits prod.splits)
  have "previousRef initial_numbering = [] \<or> 0 \<notin> set (autoIncrement initial_numbering)"
    by (simp add: initial_numbering_def)
  from number_sections_paths [OF run this] obtain paths where
    len: "length paths = length ?srt"
    and srt: "sorted_wrt (<) (autoIncrement initial_numbering # paths)"
    and ok: "\<forall>p\<in>set paths. p \<noteq> [] \<and> 0 \<notin> set p"
    and out: "out = map2 renumber paths ?srt"
    by blast
  have dist: "distinct paths" using srt sorted_wrt_less_distinct by simp
  have lo: "length out = length ?srt" using out len by simp
  have at: "\<And>i. i < length out \<Longrightarrow> out ! i = renumber (paths ! i) (?srt ! i)"
    using out len by simp
  have okp: "\<And>i. i < length out \<Longrightarrow> paths ! i \<noteq> [] \<and> (\<forall>n\<in>set (paths ! i). 0 < n)"
  proof -
    fix i assume "i < length out"
    then have "paths ! i \<in> set paths" using lo len by simp
    then have "paths ! i \<noteq> [] \<and> 0 \<notin> set (paths ! i)" using ok by blast
    then show "paths ! i \<noteq> [] \<and> (\<forall>n\<in>set (paths ! i). 0 < n)"
      by (metis gr0I)
  qed
  have p1: "\<forall>i<length out. numeric_reference (reference (?srt ! i)) \<longrightarrow> out ! i = ?srt ! i"
    using at by (simp add: renumber_def)
  have refs: "\<And>i. i < length out \<Longrightarrow> \<not> numeric_reference (reference (?srt ! i)) \<Longrightarrow>
      reference (out ! i) = join_dot (map decimal (paths ! i))"
    using at by (simp add: renumber_def)
  have p2: "\<forall>i<length out. \<not> numeric_reference (reference (?srt ! i)) \<longrightarrow>
      (\<exists>ns. ns \<noteq> [] \<and> (\<forall>n\<in>set ns. 0 < n) \<and> reference (out ! i) = join_dot (map decimal ns))"
    using refs okp by blast
  have p3: "\<forall>i<length out. \<forall>j<length out. i \<noteq> j \<longrightarrow>
      \<not> numeric_reference (reference (?srt ! i)) \<longrightarrow>
      \<not> numeric_reference (reference (?srt ! j)) \<longrightarrow>
      reference (out ! i) \<noteq> reference (out ! j)"
  proof (intro allI impI)
    fix i j
    assume i: "i < length out" and j: "j < length out" and ij: "i \<noteq> j"
      and ni: "\<not> numeric_reference (reference (?srt ! i))"
      and nj: "\<not> numeric_reference (reference (?srt ! j))"
    have "paths ! i \<noteq> paths ! j"
      using dist i j ij lo len by (simp add: nth_eq_iff_index_eq)
    moreover have "paths ! i \<noteq> []" "paths ! j \<noteq> []" using okp i j by simp_all
    ultimately have "join_dot (map decimal (paths ! i)) \<noteq> join_dot (map decimal (paths ! j))"
      using join_decimal_inj by blast
    then show "reference (out ! i) \<noteq> reference (out ! j)"
      using refs [OF i ni] refs [OF j nj] by simp
  qed
  show ?thesis using lo p1 p2 p3 by blast
qed

theorem rewritten_references_distinct_witness:
  "sortedSections [plain_section ''C'' ''a.c'' 0, plain_section ''N'' ''7'' 0, plain_section ''B'' ''a.b'' 0]
   = Inr [plain_section ''N'' ''7'' 0,
          (plain_section ''B'' ''a.b'' 0)\<lparr>stringReference := Some ''a.b'', reference := ''2.1''\<rparr>,
          (plain_section ''C'' ''a.c'' 0)\<lparr>stringReference := Some ''a.c'', reference := ''2.2''\<rparr>]
   \<and> array_sort (likeKssNode (initWeightMap
        [plain_section ''C'' ''a.c'' 0, plain_section ''N'' ''7'' 0, plain_section ''B'' ''a.b'' 0]))
        [plain_section ''C'' ''a.c'' 0, plain_section ''N'' ''7'' 0, plain_section ''B'' ''a.b'' 0]
      = [plain_section ''N'' ''7'' 0, plain_section ''B'' ''a.b'' 0, plain_section ''C'' ''a.c'' 0]
   \<and> reference ([plain_section ''N'' ''7'' 0,
          (plain_section ''B'' ''a.b'' 0)\<lparr>stringReference := Some ''a.b'', reference := ''2.1''\<rparr>,
          (plain_section ''C'' ''a.c'' 0)\<lparr>stringReference := Some ''a.c'', reference := ''2.2''\<rparr>] ! 1)
     \<noteq> reference ([plain_section ''N'' ''7'' 0,
          (plain_section ''B'' ''a.b'' 0)\<lparr>stringReference := Some ''a.b'', reference := ''2.1''\<rparr>,
          (plain_section ''C'' ''a.c'' 0)\<lparr>stringReference := Some ''a.c'', reference := ''2.2''\<rparr>] ! 2)"
proof -
  let ?secs = "[plain_section ''C'' ''a.c'' 0, plain_section ''N'' ''7'' 0, plain_section ''B'' ''a.b'' 0]"
  let ?out = "[plain_section ''N'' ''7'' 0,
          (plain_section ''B'' ''a.b'' 0)\<lparr>stringReference := Some ''a.b'', reference := ''2.1''\<rparr>,
          (plain_section ''C'' ''a.c'' 0)\<lparr>stringReference := Some ''a.c'', reference := ''2.2''\<rparr>]"
  let ?srt = "array_sort (likeKssNode (initWeightMap ?secs)) ?secs"
  have h: "sortedSections ?secs = Inr ?out"
    by (simp add: string_eval sorter_eval)
  have s: "?srt = [plain_section ''N'' ''7'' 0, plain_section ''B'' ''a.b'' 0, plain_section ''C'' ''a.c'' 0]"
    by (simp add: string_eval sorter_eval)
  have n1: "\<not> numeric_reference (reference (?srt ! 1))"
    by (simp add: s) (simp add: string_eval plain_section_def)
  have n2: "\<not> numeric_reference (reference (?srt ! 2))"
    by (simp add: s) (simp add: string_eval plain_section_def)
  from rewritten_references_distinct [OF h]
  have "\<forall>i<length ?out. \<forall>j<length ?out. i \<noteq> j \<longrightarrow>
          \<not> numeric_reference (reference (?srt ! i)) \<longrightarrow>
          \<not> numeric_reference (reference (?srt ! j)) \<longrightarrow>
          reference (?out ! i) \<noteq> reference (?out ! j)"
    by blast
  from this [rule_format, of 1 2, OF _ _ _ n1 n2]
  have d: "reference (?out ! 1) \<noteq> reference (?out ! 2)" by simp
  show ?thesis by (intro conjI h s d)
qed

text \<open>A numeric reference is kept as it is: "2" beside a section that is numbered 2, and
  "0.-", which is no chain of positive integers.\<close>

theorem numeric_reference_collides:
  "sortedSections [plain_section ''Two'' ''2'' 0, plain_section ''A'' ''a'' 0]
   = Inr [plain_section ''Two'' ''2'' 0,
          (plain_section ''A'' ''a'' 0)\<lparr>stringReference := Some ''a'', reference := ''2''\<rparr>]
   \<and> sortedSections [plain_section ''Zero'' ''0.-'' 0] = Inr [plain_section ''Zero'' ''0.-'' 0]"
  by (simp add: string_eval sorter_eval)

section \<open>The sorter works on a copy\<close>

lemma set_insert_back: "set (insert_back cmp e left) = insert e (set left)"
  by (induction left) auto

lemma length_insert_back: "length (insert_back cmp e left) = Suc (length left)"
  by (induction left) auto

lemma distinct_insert_back: "distinct (insert_back cmp e left) = (e \<notin> set left \<and> distinct left)"
  by (induction left) (auto simp: set_insert_back)

lemma foldl_insert_back_props:
  "set (foldl (\<lambda>left e. insert_back cmp e left) acc xs) = set xs \<union> set acc
   \<and> length (foldl (\<lambda>left e. insert_back cmp e left) acc xs) = length xs + length acc
   \<and> distinct (foldl (\<lambda>left e. insert_back cmp e left) acc xs) = distinct (xs @ acc)"
proof (induction xs arbitrary: acc)
  case Nil
  show ?case by simp
next
  case (Cons x xs)
  show ?case
    using Cons [of "insert_back cmp x acc"]
    by (auto simp: set_insert_back length_insert_back distinct_insert_back)
qed

lemma array_sort_props:
  "set (array_sort cmp xs) = set xs" "length (array_sort cmp xs) = length xs"
  "distinct (array_sort cmp xs) = distinct xs"
  using foldl_insert_back_props [of cmp "[]" xs] by (simp_all add: array_sort_def)

lemma insert_back_map:
  "insert_back cmp (f e) (map f left) = map f (insert_back (\<lambda>a b. cmp (f a) (f b)) e left)"
  by (induction left) auto

lemma foldl_insert_back_map:
  "foldl (\<lambda>left e. insert_back cmp e left) (map f acc) (map f xs) =
   map f (foldl (\<lambda>left e. insert_back (\<lambda>a b. cmp (f a) (f b)) e left) acc xs)"
proof (induction xs arbitrary: acc)
  case Nil
  show ?case by simp
next
  case (Cons x xs)
  show ?case using Cons [of "insert_back (\<lambda>a b. cmp (f a) (f b)) x acc"]
    by (simp add: insert_back_map)
qed

lemma array_sort_map:
  "array_sort cmp (map f xs) = map f (array_sort (\<lambda>a b. cmp (f a) (f b)) xs)"
  using foldl_insert_back_map [of cmp f "[]" xs] by (simp add: array_sort_def rev_map)

lemma number_sections_at_frame:
  "number_sections_at objs st as = (objs', err) \<Longrightarrow>
   length objs' = length objs \<and> (\<forall>i. i \<notin> set as \<longrightarrow> objs' ! i = objs ! i)"
proof (induction as arbitrary: objs st)
  case Nil
  then show ?case by simp
next
  case (Cons a as)
  show ?case
  proof (cases "number_section (read_numbering objs st) (objs ! a)")
    case (Inl e)
    then show ?thesis using Cons.prems by simp
  next
    case (Inr r)
    obtain st' sec' where r: "r = (st', sec')" by (cases r)
    let ?st = "\<lparr>previousRef_at = previousRef st', previousSection_at = Some a,
                 autoIncrement_at = autoIncrement st'\<rparr>"
    have "number_sections_at (objs[a := sec']) ?st as = (objs', err)"
      using Cons.prems Inr r by simp
    from Cons.IH [OF this]
    have "length objs' = length (objs[a := sec'])"
      and "\<forall>i. i \<notin> set as \<longrightarrow> objs' ! i = objs[a := sec'] ! i"
      by simp_all
    then show ?thesis by auto
  qed
qed

lemma clone_deep_store:
  "clone_deep s arr =
     (s\<lparr>objects := objects s @ read_array s arr,
        arrays := arrays s @ [[length (objects s) ..< length (objects s) + length (arrays s ! arr)]]\<rparr>,
      length (arrays s))"
  by (simp add: clone_deep_def read_array_def Let_def)

lemma read_array_clone:
  "read_array (fst (clone_deep s arr)) (snd (clone_deep s arr)) = read_array s arr"
proof -
  let ?n = "length (objects s)"
  let ?elems = "arrays s ! arr"
  have "map (\<lambda>a. (objects s @ read_array s arr) ! a) [?n ..< ?n + length ?elems] = read_array s arr"
    by (rule nth_equalityI) (simp_all add: read_array_def nth_append)
  then show ?thesis by (simp add: clone_deep_store read_array_def)
qed

text \<open>
  C9. The sorter on a store, for every store and every array of it: whether the
  numbering ends or throws, every object that was in the store before (so every section
  of the caller's collection, with all its fields) and every array that was in it (so
  the caller's collection itself) is as it was. The sorter's sections are a new array,
  and every element of it is a new object.
\<close>

theorem sorter_leaves_callers_sections:
  "take (length (objects s)) (objects (fst (sortedSections_at s arr))) = objects s
   \<and> take (length (arrays s)) (arrays (fst (sortedSections_at s arr))) = arrays s
   \<and> (case snd (sortedSections_at s arr) of
        Inl e \<Rightarrow> True
      | Inr copy \<Rightarrow>
          copy = length (arrays s)
        \<and> list_all (\<lambda>a. length (objects s) \<le> a) (arrays (fst (sortedSections_at s arr)) ! copy))"
proof -
  let ?n = "length (objects s)"
  let ?m = "length (arrays s ! arr)"
  let ?objs1 = "objects s @ read_array s arr"
  let ?arrs1 = "arrays s @ [[?n ..< ?n + ?m]]"
  let ?wm = "initWeightMap (read_array (fst (clone_deep s arr)) (snd (clone_deep s arr)))"
  let ?sorted = "array_sort (\<lambda>a b. likeKssNode ?wm (?objs1 ! a) (?objs1 ! b)) [?n ..< ?n + ?m]"
  let ?init = "\<lparr>previousRef_at = [], previousSection_at = None, autoIncrement_at = [0]\<rparr>"
  obtain objs err where run: "number_sections_at ?objs1 ?init ?sorted = (objs, err)"
    by (cases "number_sections_at ?objs1 ?init ?sorted")
  have res: "sortedSections_at s arr =
      (s\<lparr>objects := objs, arrays := ?arrs1[length (arrays s) := ?sorted]\<rparr>,
       (case err of Some e \<Rightarrow> Inl e | None \<Rightarrow> Inr (length (arrays s))))"
    using run
    by (cases err)
      (simp_all add: sortedSections_at_def new_KssNodeSorter_at_def KssNodeSorter_sort_at_def
        clone_deep_store Let_def)
  have fr: "length objs = length ?objs1" "\<forall>i. i \<notin> set ?sorted \<longrightarrow> objs ! i = ?objs1 ! i"
    using number_sections_at_frame [OF run] by simp_all
  have set_sorted: "set ?sorted = {?n ..< ?n + ?m}"
    by (simp add: array_sort_props)
  have "take ?n objs = take ?n ?objs1"
  proof (rule nth_equalityI)
    show "length (take ?n objs) = length (take ?n ?objs1)" using fr(1) by simp
  next
    fix i assume "i < length (take ?n objs)"
    then have i: "i < ?n" by simp
    then have "i \<notin> set ?sorted" using set_sorted by simp
    then show "take ?n objs ! i = take ?n ?objs1 ! i" using fr(2) i by (simp add: nth_append)
  qed
  then have p1: "take ?n objs = objects s" by simp
  have p2: "take (length (arrays s)) (?arrs1[length (arrays s) := ?sorted]) = arrays s"
    by simp
  have p3: "list_all (\<lambda>a. ?n \<le> a) ?sorted"
    using set_sorted by (simp add: list_all_iff)
  show ?thesis
    using p1 p2 p3 by (cases err) (simp_all add: res)
qed

text \<open>The sections the sorter leaves in its own array are those of the sorter on values,
  and it throws when that one does.\<close>

lemma number_sections_at_refines:
  assumes "number_sections_at objs st as = (objs', err)"
    and "distinct as" and "\<forall>a\<in>set as. a < length objs"
  shows "case number_sections (read_numbering objs st) (map (\<lambda>a. objs ! a) as) of
           Inl e \<Rightarrow> err = Some e
         | Inr (st', out) \<Rightarrow> err = None \<and> map (\<lambda>a. objs' ! a) as = out"
  using assms
proof (induction as arbitrary: objs st)
  case Nil
  then show ?case by simp
next
  case (Cons a as)
  show ?case
  proof (cases "number_section (read_numbering objs st) (objs ! a)")
    case (Inl e)
    then show ?thesis using Cons.prems(1) by simp
  next
    case (Inr r)
    obtain st1 sec' where r: "r = (st1, sec')" by (cases r)
    let ?objs1 = "objs[a := sec']"
    let ?st = "\<lparr>previousRef_at = previousRef st1, previousSection_at = Some a,
                 autoIncrement_at = autoIncrement st1\<rparr>"
    have step: "number_section (read_numbering objs st) (objs ! a) = Inr (st1, sec')"
      using Inr r by simp
    have run: "number_sections_at ?objs1 ?st as = (objs', err)"
      using Cons.prems(1) step by simp
    have a: "a < length objs" "a \<notin> set as" using Cons.prems(2,3) by simp_all
    have "previousSection st1 = Some sec'"
      using step by (rule number_section_after(3))
    then have st1: "read_numbering ?objs1 ?st = st1"
      using a(1) by (simp add: read_numbering_def)
    have same: "map (\<lambda>b. ?objs1 ! b) as = map (\<lambda>b. objs ! b) as"
    proof (rule map_cong [OF refl])
      fix b assume "b \<in> set as"
      then have "a \<noteq> b" using a(2) by auto
      then show "?objs1 ! b = objs ! b" by simp
    qed
    have "case number_sections (read_numbering ?objs1 ?st) (map (\<lambda>b. ?objs1 ! b) as) of
           Inl e \<Rightarrow> err = Some e
         | Inr (st', out) \<Rightarrow> err = None \<and> map (\<lambda>b. objs' ! b) as = out"
      using run Cons.prems(2,3) by (intro Cons.IH) simp_all
    then have ih: "case number_sections st1 (map (\<lambda>b. objs ! b) as) of
           Inl e \<Rightarrow> err = Some e
         | Inr (st', out) \<Rightarrow> err = None \<and> map (\<lambda>b. objs' ! b) as = out"
      by (simp only: st1 same)
    have "objs' ! a = ?objs1 ! a"
      using number_sections_at_frame [OF run] a(2) by simp
    then have here: "objs' ! a = sec'" using a(1) by simp
    show ?thesis
      using ih step here by (auto split: sum.splits prod.splits)
  qed
qed

lemma sortedSections_at_refines:
  "case sortedSections (read_array s arr) of
     Inl e \<Rightarrow> snd (sortedSections_at s arr) = Inl e
   | Inr out \<Rightarrow>
       snd (sortedSections_at s arr) = Inr (length (arrays s))
     \<and> read_array (fst (sortedSections_at s arr)) (length (arrays s)) = out"
proof -
  let ?n = "length (objects s)"
  let ?m = "length (arrays s ! arr)"
  let ?objs1 = "objects s @ read_array s arr"
  let ?arrs1 = "arrays s @ [[?n ..< ?n + ?m]]"
  let ?wm = "initWeightMap (read_array s arr)"
  let ?sorted = "array_sort (\<lambda>a b. likeKssNode ?wm (?objs1 ! a) (?objs1 ! b)) [?n ..< ?n + ?m]"
  let ?init = "\<lparr>previousRef_at = [], previousSection_at = None, autoIncrement_at = [0]\<rparr>"
  have copy: "read_array (fst (clone_deep s arr)) (snd (clone_deep s arr)) = read_array s arr"
    by (rule read_array_clone)
  then have copy': "read_array (s\<lparr>objects := ?objs1, arrays := ?arrs1\<rparr>) (length (arrays s)) = read_array s arr"
    by (simp add: clone_deep_store)
  obtain objs err where run: "number_sections_at ?objs1 ?init ?sorted = (objs, err)"
    by (cases "number_sections_at ?objs1 ?init ?sorted")
  have res: "sortedSections_at s arr =
      (s\<lparr>objects := objs, arrays := ?arrs1[length (arrays s) := ?sorted]\<rparr>,
       (case err of Some e \<Rightarrow> Inl e | None \<Rightarrow> Inr (length (arrays s))))"
    using run copy'
    by (cases err)
      (simp_all add: sortedSections_at_def new_KssNodeSorter_at_def KssNodeSorter_sort_at_def
        clone_deep_store Let_def)
  have vals: "map (\<lambda>a. ?objs1 ! a) [?n ..< ?n + ?m] = read_array s arr"
    by (rule nth_equalityI) (simp_all add: read_array_def nth_append)
  have sorted_values: "map (\<lambda>a. ?objs1 ! a) ?sorted = array_sort (likeKssNode ?wm) (read_array s arr)"
    using array_sort_map [of "likeKssNode ?wm" "\<lambda>a. ?objs1 ! a" "[?n ..< ?n + ?m]"] vals
    by simp
  have d: "distinct ?sorted" by (simp add: array_sort_props)
  have v: "\<forall>a\<in>set ?sorted. a < length ?objs1"
    by (simp add: array_sort_props read_array_def)
  have init: "read_numbering ?objs1 ?init = initial_numbering"
    by (simp add: read_numbering_def initial_numbering_def)
  have rel: "case number_sections initial_numbering (array_sort (likeKssNode ?wm) (read_array s arr)) of
           Inl e \<Rightarrow> err = Some e
         | Inr (st', out) \<Rightarrow> err = None \<and> map (\<lambda>a. objs ! a) ?sorted = out"
    using number_sections_at_refines [OF run d v] by (simp only: init sorted_values)
  have rd: "read_array (s\<lparr>objects := objs, arrays := ?arrs1[length (arrays s) := ?sorted]\<rparr>) (length (arrays s))
      = map (\<lambda>a. objs ! a) ?sorted"
    by (simp add: read_array_def)
  show ?thesis
    using rel rd
    by (auto simp: res sortedSections_def KssNodeSorter_sort_def new_KssNodeSorter_def
        convertKssReferenceString2Number_def split: sum.splits prod.splits)
qed

lemmas store_eval = sortedSections_at_def new_KssNodeSorter_at_def KssNodeSorter_sort_at_def
  clone_deep_def read_array_def read_numbering_def

text \<open>A store with the sections "a.c" and "a.b": the copies are sorted and renumbered,
  the two sections of the caller are untouched.\<close>

theorem sorter_leaves_callers_sections_example:
  "sortedSections_at
     \<lparr>objects = [plain_section ''C'' ''a.c'' 0, plain_section ''B'' ''a.b'' 0], arrays = [[0, 1]]\<rparr> 0
   = (\<lparr>objects = [plain_section ''C'' ''a.c'' 0, plain_section ''B'' ''a.b'' 0,
                   (plain_section ''C'' ''a.c'' 0)\<lparr>stringReference := Some ''a.c'', reference := ''1.2''\<rparr>,
                   (plain_section ''B'' ''a.b'' 0)\<lparr>stringReference := Some ''a.b'', reference := ''1.1''\<rparr>],
       arrays = [[0, 1], [3, 2]]\<rparr>,
      Inr 1)"
  using sorter_leaves_callers_sections
    [of "\<lparr>objects = [plain_section ''C'' ''a.c'' 0, plain_section ''B'' ''a.b'' 0], arrays = [[0, 1]]\<rparr>" 0]
  by (simp add: store_eval string_eval sorter_eval upt_rec)

end
